theory Spec2Isabelle
  imports Complex_Main "HOL-Library.Multiset" "HOL-Library.Log_Nat"
begin

section \<open>Frame candidates, frame scores and the top-5 selection of \<open>server/index.js\<close>\<close>

text \<open>
  The server asks \<open>ffprobe\<close> for the duration of a video, plans candidate timestamps
  (\<open>makeCandidateTimes\<close>), extracts and scores one frame per candidate
  (\<open>extractJpgAt\<close>, \<open>scoreFrameJpg\<close>) and keeps at most five well separated
  timestamps (\<open>autoPickTop5Times\<close>).

  Numbers. A finite JavaScript Number is modelled as the real it denotes, extended with
  \<open>NaN\<close> and the two infinities where the code tests for them
  (\<open>Number.isFinite\<close>). The Numbers of the program are binary64 floating point
  numbers: every decimal literal of the source, every Number read from a string and every
  product, quotient, sum and difference of the planner and of the selection is rounded
  to the nearest binary64 number (\<open>rd\<close>), because the number of candidates, the clamp of
  a timestamp and the gap test of the selection depend on the rounded values.
  The weighted sum of the frame scorer is kept exact. The sign of zero is not modelled.
\<close>

subsection \<open>Rounding to binary64\<close>

text \<open>
  Round to nearest, ties to even (the only rounding mode of ECMAScript): \<open>round_even\<close>
  rounds a real to an integer, \<open>expo\<close> is the binary exponent of a real, not below
  \<open>-1022\<close> (gradual underflow), and \<open>rd x\<close> is the multiple of
  \<open>2 ^ (expo x - 52)\<close> nearest to \<open>x\<close>, that is, the nearest number with a
  significand of 53 bits. \<open>ulp x\<close> is the spacing of the binary64 numbers around
  \<open>x\<close>.

  The largest binary64 number is not modelled: a result of magnitude
  \<open>2^1024 - 2^970\<close> or more, an infinity for the code, is a large real here. The
  operations of the planner and of the selection that can overflow on binary64 operands
  are \<open>duration / 0.35\<close> and \<open>p.ts - item.ts\<close>; what the code does with their
  result (\<open>Math.min(maxCandidates, Math.max(40, Math.floor(...)))\<close> and
  \<open>Math.abs(...) >= gap\<close>) comes out the same for the infinity and for the large
  real. \<open>Number(string)\<close> does model the overflow (\<open>round_overflow\<close>).
\<close>

definition round_even :: "real \<Rightarrow> int" where
  "round_even m =
     (let f = \<lfloor>m\<rfloor>; r = m - of_int f
      in if r < 1 / 2 then f
         else if 1 / 2 < r then f + 1
         else if even f then f else f + 1)"

definition expo0 :: "real \<Rightarrow> int" where
  "expo0 x =
     (if 1 \<le> \<bar>x\<bar> then bitlen \<lfloor>\<bar>x\<bar>\<rfloor> - 1
      else - bitlen (\<lceil>1 / \<bar>x\<bar>\<rceil> - 1))"

definition expo :: "real \<Rightarrow> int" where
  "expo x = max (- 1022) (expo0 x)"

definition ulp :: "real \<Rightarrow> real" where
  "ulp x = 2 powi (expo x - 52)"

definition rd :: "real \<Rightarrow> real" where
  "rd x = of_int (round_even (x / ulp x)) * ulp x"

text \<open>The four operations on finite Numbers.\<close>

definition fadd :: "real \<Rightarrow> real \<Rightarrow> real" where
  "fadd a b = rd (a + b)"

definition fsub :: "real \<Rightarrow> real \<Rightarrow> real" where
  "fsub a b = rd (a - b)"

definition fmul :: "real \<Rightarrow> real \<Rightarrow> real" where
  "fmul a b = rd (a * b)"

definition fdiv :: "real \<Rightarrow> real \<Rightarrow> real" where
  "fdiv a b = rd (a / b)"

subsection \<open>JavaScript Numbers\<close>

datatype jsnum = Num real | PInf | NInf | NaN

fun isFinite :: "jsnum \<Rightarrow> bool" where
  "isFinite (Num r) = True"
| "isFinite PInf = False"
| "isFinite NInf = False"
| "isFinite NaN = False"

fun jneg :: "jsnum \<Rightarrow> jsnum" where
  "jneg (Num a) = Num (- a)"
| "jneg PInf = NInf"
| "jneg NInf = PInf"
| "jneg NaN = NaN"

fun jadd :: "jsnum \<Rightarrow> jsnum \<Rightarrow> jsnum" where
  "jadd NaN b = NaN"
| "jadd a NaN = NaN"
| "jadd (Num a) (Num b) = Num (fadd a b)"
| "jadd (Num a) b = b"
| "jadd a (Num b) = a"
| "jadd PInf PInf = PInf"
| "jadd NInf NInf = NInf"
| "jadd PInf NInf = NaN"
| "jadd NInf PInf = NaN"

definition jsub :: "jsnum \<Rightarrow> jsnum \<Rightarrow> jsnum" where
  "jsub a b = jadd a (jneg b)"

text \<open>The sign of a product or quotient with an infinite operand.\<close>

definition signed_inf :: "bool \<Rightarrow> jsnum" where
  "signed_inf positive = (if positive then PInf else NInf)"

fun jmul :: "jsnum \<Rightarrow> jsnum \<Rightarrow> jsnum" where
  "jmul NaN b = NaN"
| "jmul a NaN = NaN"
| "jmul (Num a) (Num b) = Num (fmul a b)"
| "jmul (Num a) PInf = (if a = 0 then NaN else signed_inf (0 < a))"
| "jmul (Num a) NInf = (if a = 0 then NaN else signed_inf (a < 0))"
| "jmul PInf (Num b) = (if b = 0 then NaN else signed_inf (0 < b))"
| "jmul NInf (Num b) = (if b = 0 then NaN else signed_inf (b < 0))"
| "jmul PInf PInf = PInf"
| "jmul NInf NInf = PInf"
| "jmul PInf NInf = NInf"
| "jmul NInf PInf = NInf"

fun jdiv :: "jsnum \<Rightarrow> jsnum \<Rightarrow> jsnum" where
  "jdiv NaN b = NaN"
| "jdiv a NaN = NaN"
| "jdiv (Num a) (Num b) =
     (if b = 0 then (if a = 0 then NaN else signed_inf (0 < a)) else Num (fdiv a b))"
| "jdiv (Num a) b = Num 0"
| "jdiv PInf (Num b) = signed_inf (0 \<le> b)"
| "jdiv NInf (Num b) = signed_inf (b < 0)"
| "jdiv a b = NaN"

text \<open>\<open>Math.floor\<close>, \<open>Math.max\<close> and \<open>Math.min\<close>: a \<open>NaN\<close> argument gives \<open>NaN\<close>.\<close>

fun jfloor :: "jsnum \<Rightarrow> jsnum" where
  "jfloor (Num a) = Num (of_int \<lfloor>a\<rfloor>)"
| "jfloor a = a"

fun jle :: "jsnum \<Rightarrow> jsnum \<Rightarrow> bool" where
  "jle NaN b = False"
| "jle a NaN = False"
| "jle (Num a) (Num b) = (a \<le> b)"
| "jle NInf b = True"
| "jle a PInf = True"
| "jle a b = False"

fun jmax :: "jsnum \<Rightarrow> jsnum \<Rightarrow> jsnum" where
  "jmax NaN b = NaN"
| "jmax a NaN = NaN"
| "jmax a b = (if jle a b then b else a)"

fun jmin :: "jsnum \<Rightarrow> jsnum \<Rightarrow> jsnum" where
  "jmin NaN b = NaN"
| "jmin a NaN = NaN"
| "jmin a b = (if jle a b then a else b)"

subsection \<open>\<open>Number(string)\<close> and \<open>String.prototype.trim\<close>\<close>

text \<open>
  The built-in conversion of a string to a Number (ECMAScript \<open>StringToNumber\<close>), on
  strings of 8-bit code units: surrounding white space is skipped, the empty string is
  \<open>0\<close>, a signed decimal literal with optional fraction and exponent or
  \<open>Infinity\<close> is its value, an unsigned \<open>0x\<close>, \<open>0o\<close> or \<open>0b\<close> literal
  is its integer, and anything else is \<open>NaN\<close>. A literal whose value rounds beyond the
  largest binary64 number is an infinity.
\<close>

definition is_ws :: "char \<Rightarrow> bool" where
  "is_ws c = (of_char c \<in> {9, 10, 11, 12, 13, 32, 160 :: nat})"

definition trim :: "string \<Rightarrow> string" where
  "trim s = rev (dropWhile is_ws (rev (dropWhile is_ws s)))"

definition is_digit :: "char \<Rightarrow> bool" where
  "is_digit c = (48 \<le> (of_char c :: nat) \<and> (of_char c :: nat) \<le> 57)"

text \<open>The value of a digit in a base up to 16, if it is one.\<close>

definition digit_in :: "nat \<Rightarrow> char \<Rightarrow> nat option" where
  "digit_in base c =
     (let n = (of_char c :: nat);
          v = (if 48 \<le> n \<and> n \<le> 57 then Some (n - 48)
               else if 97 \<le> n \<and> n \<le> 102 then Some (n - 87)
               else if 65 \<le> n \<and> n \<le> 70 then Some (n - 55)
               else None)
      in case v of None \<Rightarrow> None | Some d \<Rightarrow> if d < base then Some d else None)"

fun digits_val :: "nat \<Rightarrow> nat \<Rightarrow> string \<Rightarrow> nat option" where
  "digits_val base acc [] = Some acc"
| "digits_val base acc (c # cs) =
     (case digit_in base c of
        None \<Rightarrow> None
      | Some d \<Rightarrow> digits_val base (base * acc + d) cs)"

text \<open>A non-empty run of digits of the base, as a natural number.\<close>

definition number_in :: "nat \<Rightarrow> string \<Rightarrow> nat option" where
  "number_in base s = (if s = [] then None else digits_val base 0 s)"

text \<open>
  The value of a literal is rounded to binary64; values of magnitude at least
  \<open>2^1024 - 2^970\<close> round to an infinity.
\<close>

definition round_overflow :: "real \<Rightarrow> jsnum" where
  "round_overflow x =
     (if 2 ^ 1024 - 2 ^ 970 \<le> x then PInf
      else if x \<le> - (2 ^ 1024 - 2 ^ 970) then NInf
      else Num (rd x))"

text \<open>The exponent part: nothing, or \<open>e\<close>/\<open>E\<close>, an optional sign and digits.\<close>

definition exponent_part :: "string \<Rightarrow> int option" where
  "exponent_part s =
     (case s of
        [] \<Rightarrow> Some 0
      | c # r \<Rightarrow>
          if c = CHR ''e'' \<or> c = CHR ''E'' then
            (case r of
               [] \<Rightarrow> None
             | d # r' \<Rightarrow>
                 if d = CHR ''+'' then map_option int (number_in 10 r')
                 else if d = CHR ''-'' then map_option (\<lambda>n. - int n) (number_in 10 r')
                 else map_option int (number_in 10 r))
          else None)"

definition unsigned_decimal :: "string \<Rightarrow> real option" where
  "unsigned_decimal s =
     (let ip = takeWhile is_digit s;
          r1 = dropWhile is_digit s;
          dot = (r1 \<noteq> [] \<and> hd r1 = CHR ''.'');
          fp = (if dot then takeWhile is_digit (tl r1) else []);
          r2 = (if dot then dropWhile is_digit (tl r1) else r1)
      in if ip = [] \<and> fp = [] then None
         else case (digits_val 10 0 ip, digits_val 10 0 fp, exponent_part r2) of
                (Some i, Some f, Some e) \<Rightarrow>
                  Some ((real i + real f / 10 ^ length fp) * 10 powi e)
              | _ \<Rightarrow> None)"

definition str_decimal :: "string \<Rightarrow> jsnum" where
  "str_decimal s =
     (let neg = (s \<noteq> [] \<and> hd s = CHR ''-'');
          body = (if s \<noteq> [] \<and> (hd s = CHR ''+'' \<or> hd s = CHR ''-'') then tl s else s)
      in if body = ''Infinity'' then (if neg then NInf else PInf)
         else case unsigned_decimal body of
                None \<Rightarrow> NaN
              | Some v \<Rightarrow> round_overflow (if neg then - v else v))"

definition non_decimal :: "string \<Rightarrow> jsnum option" where
  "non_decimal s =
     (case s of
        z # x # r \<Rightarrow>
          if z \<noteq> CHR ''0'' then None
          else
            (let base = (if x = CHR ''x'' \<or> x = CHR ''X'' then 16
                         else if x = CHR ''o'' \<or> x = CHR ''O'' then 8
                         else if x = CHR ''b'' \<or> x = CHR ''B'' then 2
                         else (0::nat))
             in if base = 0 then None
                else Some (case number_in base r of
                             None \<Rightarrow> NaN
                           | Some n \<Rightarrow> round_overflow (real n)))
      | _ \<Rightarrow> None)"

definition js_Number :: "string \<Rightarrow> jsnum" where
  "js_Number str =
     (let s = trim str
      in if s = [] then Num 0
         else case non_decimal s of
                Some v \<Rightarrow> v
              | None \<Rightarrow> str_decimal s)"

subsection \<open>Running an external tool\<close>

text \<open>
  \<open>runExecFile\<close> resolves with the two output streams of the process or rejects
  with an \<open>Error\<close>. A rejected promise that is awaited outside a \<open>try\<close> leaves the
  calling function as its rejection; \<open>Inl\<close> is the rejection.
\<close>

datatype error = ExecError string | BadDuration

record exec_out =
  stdout :: string
  stderr :: string

type_synonym exec_result = "error + exec_out"

subsection \<open>\<open>ffprobeDurationSeconds\<close>\<close>

text \<open>
  \<^verbatim>\<open>
  const { stdout } = await runExecFile("ffprobe", [...]);
  const n = Number(String(stdout).trim());
  if (!Number.isFinite(n)) throw new Error("Bad duration");
  return n;
  \<close>
  The argument is the outcome of the \<open>ffprobe\<close> process. The returned Number is
  finite, so it is given as a real.
\<close>

definition ffprobeDurationSeconds :: "exec_result \<Rightarrow> error + real" where
  "ffprobeDurationSeconds run =
     (case run of
        Inl e \<Rightarrow> Inl e
      | Inr out \<Rightarrow>
          (case js_Number (trim (stdout out)) of
             Num n \<Rightarrow> Inr n
           | _ \<Rightarrow> Inl BadDuration))"

subsection \<open>\<open>parseSignalstats\<close>\<close>

text \<open>
  \<^verbatim>\<open>
  const out = {};
  const re = /lavfi\.signalstats\.([A-Z]+)=([0-9.]+)/g;
  let m;
  while ((m = re.exec(stderr)) !== null) { out[m[1]] = Number(m[2]); }
  return out;
  \<close>
  \<open>match_here\<close> is one attempt of the regular expression at the head of the text:
  the literal prefix, the longest run of capital letters, \<open>=\<close>, the longest run of
  digits and dots (both runs non-empty). A shorter run of capitals can never be followed
  by \<open>=\<close>, so the greedy choice is the only one. The loop takes the leftmost match,
  stores it (a later match of a key overwrites an earlier one) and goes on behind it.
\<close>

definition is_upper :: "char \<Rightarrow> bool" where
  "is_upper c = (65 \<le> (of_char c :: nat) \<and> (of_char c :: nat) \<le> 90)"

definition is_numch :: "char \<Rightarrow> bool" where
  "is_numch c = (is_digit c \<or> c = CHR ''.'')"

definition match_here :: "string \<Rightarrow> (string \<times> string \<times> string) option" where
  "match_here s =
     (let p = ''lavfi.signalstats.''
      in if take (length p) s = p then
           (let r = drop (length p) s;
                key = takeWhile is_upper r;
                r1 = dropWhile is_upper r
            in if key \<noteq> [] \<and> r1 \<noteq> [] \<and> hd r1 = CHR ''='' then
                 (let v = takeWhile is_numch (tl r1);
                      rest = dropWhile is_numch (tl r1)
                  in if v \<noteq> [] then Some (key, v, rest) else None)
               else None)
         else None)"

function signalstats_loop :: "string \<Rightarrow> (string \<rightharpoonup> jsnum) \<Rightarrow> (string \<rightharpoonup> jsnum)" where
  "signalstats_loop [] out = out"
| "signalstats_loop (c # cs) out =
     (case match_here (c # cs) of
        None \<Rightarrow> signalstats_loop cs out
      | Some (key, v, rest) \<Rightarrow> signalstats_loop rest (out(key \<mapsto> js_Number v)))"
  by pat_completeness auto
termination
proof (relation "measure (\<lambda>(s, out). length s)", goal_cases)
  case 1
  show ?case by simp
next
  case (2 c cs out)
  show ?case by simp
next
  case (3 c cs out m key y v rest)
  let ?r1 = "dropWhile is_upper (drop (length ''lavfi.signalstats.'') (c # cs))"
  from 3 have r1: "?r1 \<noteq> []" and rest: "rest = dropWhile is_numch (tl ?r1)"
    by (auto simp: match_here_def Let_def split: if_splits)
  have "length rest \<le> length (tl ?r1)"
    unfolding rest by (rule length_dropWhile_le)
  also have "\<dots> < length ?r1"
    using r1 by (cases ?r1) simp_all
  also have "\<dots> \<le> length (drop (length ''lavfi.signalstats.'') (c # cs))"
    by (rule length_dropWhile_le)
  also have "\<dots> \<le> length (c # cs)"
    by simp
  finally show ?case by simp
qed

definition parseSignalstats :: "string \<Rightarrow> (string \<rightharpoonup> jsnum)" where
  "parseSignalstats err = signalstats_loop err Map.empty"

subsection \<open>\<open>scoreFrameJpg\<close>\<close>

text \<open>
  \<open>Number.isFinite(stats.KEY) ? stats.KEY : dflt\<close>: a missing key reads as
  \<open>undefined\<close>, which is not a finite Number.
\<close>

definition finite_or :: "jsnum option \<Rightarrow> real \<Rightarrow> real" where
  "finite_or v dflt = (case v of Some (Num r) \<Rightarrow> r | _ \<Rightarrow> dflt)"

text \<open>
  The two arguments are the outcomes of the two \<open>ffmpeg\<close> runs on the image, the
  grey-level statistics and the statistics after edge detection. Both awaits are inside
  \<open>try\<close>/\<open>catch\<close>: the first handler returns \<open>0.0\<close>, the second one continues
  with no edge statistics.
\<close>

definition scoreFrameJpg :: "exec_result \<Rightarrow> exec_result \<Rightarrow> error + real" where
  "scoreFrameJpg base_run edge_run =
     (case base_run of
        Inl e \<Rightarrow> Inr 0
      | Inr out \<Rightarrow>
          (let baseStats = parseSignalstats (stderr out);
               edgeStats = (case edge_run of
                              Inl e \<Rightarrow> Map.empty
                            | Inr out2 \<Rightarrow> parseSignalstats (stderr out2));
               yavg = finite_or (baseStats ''YAVG'') 128;
               ystd = finite_or (baseStats ''YSTD'') 0;
               edge = finite_or (edgeStats ''YAVG'') 0;
               exposure = 1 - min 1 (\<bar>yavg - 128\<bar> / 128);
               contrast = min 1 (ystd / 64);
               sharp = min 1 (edge / 40)
           in Inr (exposure * 0.45 + contrast * 0.30 + sharp * 0.25)))"

subsection \<open>\<open>makeCandidateTimes\<close>\<close>

text \<open>
  \<^verbatim>\<open>
  const start = duration * 0.06;
  const end = duration * 0.94;
  const span = Math.max(0, end - start);
  const count = Math.min(maxCandidates, Math.max(40, Math.floor(duration / 0.35)));
  const step = span / (count + 1);
  const times = [];
  for (let i = 1; i <= count; i++) {
    const t = start + step * i;
    times.push(Math.max(0, Math.min(duration - 0.15, t)));
  }
  return times;
  \<close>
  On a finite duration and an integer \<open>maxCandidates\<close> every value is finite and
  \<open>count\<close> is an integer (\<open>cnt\<close> and \<open>tms\<close> stand for \<open>count\<close> and
  \<open>times\<close>). \<open>rd 0.06\<close> is the Number that the literal \<open>0.06\<close> denotes.
  The loop index is an integer that binary64 holds exactly (the only call passes
  \<open>maxCandidates = 180\<close>). (\<open>step\<close> is read only when \<open>1 \<le> cnt\<close>, where
  the divisor is not zero.)
\<close>

function candidate_loop :: "real \<Rightarrow> real \<Rightarrow> real \<Rightarrow> int \<Rightarrow> int \<Rightarrow> real list \<Rightarrow> real list" where
  "candidate_loop duration start step cnt i tms =
     (if i \<le> cnt then
        (let t = fadd start (fmul step (of_int i))
         in candidate_loop duration start step cnt (i + 1)
              (tms @ [max 0 (min (fsub duration (rd 0.15)) t)]))
      else tms)"
  by pat_completeness auto
termination
  by (relation "measure (\<lambda>(duration, start, step, cnt, i, tms). nat (cnt + 1 - i))") auto

declare candidate_loop.simps [simp del]

definition makeCandidateTimes :: "real \<Rightarrow> int \<Rightarrow> real list" where
  "makeCandidateTimes duration maxCandidates =
     (let start = fmul duration (rd 0.06);
          end = fmul duration (rd 0.94);
          span = max 0 (fsub end start);
          cnt = min maxCandidates (max 40 \<lfloor>fdiv duration (rd 0.35)\<rfloor>);
          step = fdiv span (fadd (of_int cnt) 1)
      in candidate_loop duration start step cnt 1 [])"

text \<open>
  Closed forms of \<open>count\<close> and of the timestamp pushed for the index \<open>k\<close>, used to
  state what the loop computes.
\<close>

definition planned_count :: "real \<Rightarrow> int \<Rightarrow> int" where
  "planned_count d m = min m (max 40 \<lfloor>fdiv d (rd 0.35)\<rfloor>)"

definition planned_time :: "real \<Rightarrow> int \<Rightarrow> int \<Rightarrow> real" where
  "planned_time d c k =
     max 0 (min (fsub d (rd 0.15))
              (fadd (fmul d (rd 0.06))
                 (fmul (fdiv (max 0 (fsub (fmul d (rd 0.94)) (fmul d (rd 0.06))))
                          (fadd (of_int c) 1))
                    (of_int k))))"

text \<open>The timestamp \<open>t\<close> of the loop for the index \<open>k\<close>, before the clamp.\<close>

definition raw_time :: "real \<Rightarrow> int \<Rightarrow> int \<Rightarrow> real" where
  "raw_time d c k =
     fadd (fmul d (rd 0.06))
       (fmul (fdiv (max 0 (fsub (fmul d (rd 0.94)) (fmul d (rd 0.06)))) (fadd (of_int c) 1))
          (of_int k))"

text \<open>
  The same body on every Number, for the durations that are not finite. The loop test
  \<open>i <= count\<close> is false on \<open>NaN\<close> and would hold for ever on \<open>+Infinity\<close>, so
  the loop is a partial function: \<open>None\<close> is a call that does not return.
\<close>

partial_function (option) candidate_loop_num ::
  "jsnum \<Rightarrow> jsnum \<Rightarrow> jsnum \<Rightarrow> jsnum \<Rightarrow> int \<Rightarrow> jsnum list \<Rightarrow> jsnum list option" where
  "candidate_loop_num duration start step cnt i tms =
     (if jle (Num (of_int i)) cnt then
        (let t = jadd start (jmul step (Num (of_int i)))
         in candidate_loop_num duration start step cnt (i + 1)
              (tms @ [jmax (Num 0) (jmin (jsub duration (Num (rd 0.15))) t)]))
      else Some tms)"

definition makeCandidateTimes_num :: "jsnum \<Rightarrow> int \<Rightarrow> jsnum list option" where
  "makeCandidateTimes_num duration maxCandidates =
     (let start = jmul duration (Num (rd 0.06));
          end = jmul duration (Num (rd 0.94));
          span = jmax (Num 0) (jsub end start);
          cnt = jmin (Num (of_int maxCandidates))
                    (jmax (Num 40) (jfloor (jdiv duration (Num (rd 0.35)))));
          step = jdiv span (jadd cnt (Num 1))
      in candidate_loop_num duration start step cnt 1 [])"

subsection \<open>The selection of \<open>autoPickTop5Times\<close>\<close>

text \<open>An element of \<open>scored\<close>: \<open>{ ts, score: s }\<close>.\<close>

record scored =
  ts :: real
  score :: real

text \<open>
  \<^verbatim>\<open>
  for (const item of scored) {
    if (picks.length >= 5) break;
    if (picks.every((p) => Math.abs(p.ts - item.ts) >= gap)) picks.push(item);
  }
  \<close>
  The test compares the gap with the binary64 difference of the two timestamps.
\<close>

fun greedy_pass :: "real \<Rightarrow> scored list \<Rightarrow> scored list \<Rightarrow> scored list" where
  "greedy_pass gap [] picks = picks"
| "greedy_pass gap (item # rest) picks =
     (if length picks \<ge> 5 then picks
      else if list_all (\<lambda>p. \<bar>fsub (ts p) (ts item)\<bar> \<ge> gap) picks
           then greedy_pass gap rest (picks @ [item])
           else greedy_pass gap rest picks)"

text \<open>
  \<open>scored.sort((a, b) => b.score - a.score)\<close> is a stable sort by descending score
  (\<open>Array.prototype.sort\<close> is stable, and so is \<open>sort_key\<close>). The comparator
  looks at the sign of a binary64 difference, which is the sign of the exact difference
  of two binary64 numbers (\<open>fsub_sign\<close> below).
\<close>

definition sort_by_score_desc :: "scored list \<Rightarrow> scored list" where
  "sort_by_score_desc xs = sort_key (\<lambda>a. - score a) xs"

definition minGap_of :: "real \<Rightarrow> real" where
  "minGap_of duration = max (rd 1.2) (fmul duration (rd 0.06))"

text \<open>The picks of the first loop, over the sorted candidates.\<close>

definition first_pass :: "real \<Rightarrow> scored list \<Rightarrow> scored list" where
  "first_pass duration xs = greedy_pass (minGap_of duration) (sort_by_score_desc xs) []"

text \<open>Lines 186 to 207: sort, first loop, relaxed second loop, chronological order.\<close>

definition pickTop5 :: "real \<Rightarrow> scored list \<Rightarrow> scored list" where
  "pickTop5 duration xs =
     (let sorted_xs = sort_by_score_desc xs;
          picks = greedy_pass (minGap_of duration) sorted_xs [];
          picks2 = (if length picks < 5 then greedy_pass 1 sorted_xs picks else picks)
      in sort_key ts picks2)"

subsection \<open>\<open>extractJpgAt\<close> and \<open>autoPickTop5Times\<close>\<close>

text \<open>\<open>extractJpgAt\<close> awaits one \<open>ffmpeg\<close> run and returns nothing.\<close>

definition extractJpgAt :: "exec_result \<Rightarrow> error + unit" where
  "extractJpgAt run = (case run of Inl e \<Rightarrow> Inl e | Inr out \<Rightarrow> Inr ())"

text \<open>
  The external processes of one run: the \<open>ffprobe\<close> call on the video, and for the
  candidate with index \<open>i\<close> and timestamp \<open>t\<close> (which name its scratch file) the
  extraction and the two statistics calls. The scratch directory and the removal of the
  files are not modelled; their failures are caught or happen before the loop.
\<close>

record tools =
  run_ffprobe :: "string \<Rightarrow> exec_result"
  run_extract :: "string \<Rightarrow> nat \<Rightarrow> real \<Rightarrow> exec_result"
  run_base_stats :: "nat \<Rightarrow> real \<Rightarrow> exec_result"
  run_edge_stats :: "nat \<Rightarrow> real \<Rightarrow> exec_result"

text \<open>
  \<^verbatim>\<open>
  try {
    for (let i = 0; i < candidates.length; i++) {
      const ts = candidates[i];
      await extractJpgAt(videoPath, ts, jpg, 320);
      const s = await scoreFrameJpg(jpg);
      scored.push({ ts, score: s });
    }
  } finally { ... }
  \<close>
  There is no \<open>catch\<close>: a rejection of either await leaves the loop and the function.
\<close>

fun score_loop :: "tools \<Rightarrow> string \<Rightarrow> real list \<Rightarrow> nat \<Rightarrow> scored list \<Rightarrow> error + scored list" where
  "score_loop T videoPath [] i acc = Inr acc"
| "score_loop T videoPath (t # rest) i acc =
     (case extractJpgAt (run_extract T videoPath i t) of
        Inl e \<Rightarrow> Inl e
      | Inr u \<Rightarrow>
          (case scoreFrameJpg (run_base_stats T i t) (run_edge_stats T i t) of
             Inl e \<Rightarrow> Inl e
           | Inr s \<Rightarrow> score_loop T videoPath rest (Suc i) (acc @ [\<lparr>ts = t, score = s\<rparr>])))"

text \<open>The result \<open>{ duration, picks }\<close>.\<close>

record top5 =
  duration :: real
  picks :: "scored list"

definition autoPickTop5Times :: "tools \<Rightarrow> string \<Rightarrow> error + top5" where
  "autoPickTop5Times T videoPath =
     (case ffprobeDurationSeconds (run_ffprobe T videoPath) of
        Inl e \<Rightarrow> Inl e
      | Inr d \<Rightarrow>
          (let candidates = makeCandidateTimes d 180
           in case score_loop T videoPath candidates 0 [] of
                Inl e \<Rightarrow> Inl e
              | Inr xs \<Rightarrow> Inr \<lparr>duration = d, picks = pickTop5 d xs\<rparr>))"

subsection \<open>Auxiliary notions for the properties\<close>

text \<open>The value pushed by the loop on Numbers for the index \<open>k\<close>.\<close>

definition pushed_num :: "jsnum \<Rightarrow> jsnum \<Rightarrow> jsnum \<Rightarrow> int \<Rightarrow> jsnum" where
  "pushed_num d st sp k =
     jmax (Num 0) (jmin (jsub d (Num (rd 0.15))) (jadd st (jmul sp (Num (of_int k)))))"

text \<open>A parsed value that is not negative: a finite one at least 0, \<open>NaN\<close> or \<open>+Infinity\<close>.\<close>

definition nonneg_num :: "jsnum \<Rightarrow> bool" where
  "nonneg_num v = (case v of Num r \<Rightarrow> 0 \<le> r | NInf \<Rightarrow> False | _ \<Rightarrow> True)"


text \<open>The edge statistics \<open>scoreFrameJpg\<close> goes on with: none if the second run failed.\<close>

definition edge_stats_of :: "exec_result \<Rightarrow> (string \<rightharpoonup> jsnum)" where
  "edge_stats_of edge_run =
     (case edge_run of Inl e \<Rightarrow> Map.empty | Inr out2 \<Rightarrow> parseSignalstats (stderr out2))"

text \<open>
  The score as the specification words it, from the three raw signals:
  \<open>0.45 * exposure + 0.30 * contrast + 0.25 * sharpness\<close>.
\<close>

definition spec_score :: "real \<Rightarrow> real \<Rightarrow> real \<Rightarrow> real" where
  "spec_score Y S E =
     0.45 * (1 - min 1 (\<bar>Y - 128\<bar> / 128)) + 0.30 * min 1 (S / 64) + 0.25 * min 1 (E / 40)"

text \<open>
  Two picks that pass the gap test of the loops for the gap \<open>g\<close>: their binary64
  difference is at least \<open>g\<close>.
\<close>

definition sep :: "real \<Rightarrow> scored \<Rightarrow> scored \<Rightarrow> bool" where
  "sep g a b = (g \<le> \<bar>fsub (ts a) (ts b)\<bar>)"

text \<open>The picks after both loops, before the final sort.\<close>

definition all_picks :: "real \<Rightarrow> scored list \<Rightarrow> scored list" where
  "all_picks d xs =
     (if length (first_pass d xs) < 5
      then greedy_pass 1 (sort_by_score_desc xs) (first_pass d xs)
      else first_pass d xs)"

subsection \<open>Example runs\<close>

text \<open>
  A run on a video of 10 seconds in which every process succeeds, and one in which only
  the extraction of the candidate with index 1 fails.
\<close>

definition ok_tools :: tools where
  "ok_tools =
     \<lparr>run_ffprobe = (\<lambda>v. Inr \<lparr>stdout = ''10.000000\<newline>'', stderr = ''''\<rparr>),
      run_extract = (\<lambda>v i t. Inr \<lparr>stdout = '''', stderr = ''''\<rparr>),
      run_base_stats = (\<lambda>i t. Inr \<lparr>stdout = '''', stderr = ''''\<rparr>),
      run_edge_stats = (\<lambda>i t. Inr \<lparr>stdout = '''', stderr = ''''\<rparr>)\<rparr>"

definition cx_tools :: tools where
  "cx_tools =
     \<lparr>run_ffprobe = (\<lambda>v. Inr \<lparr>stdout = ''10.000000\<newline>'', stderr = ''''\<rparr>),
      run_extract = (\<lambda>v i t. if i = 1 then Inl (ExecError ''ffmpeg failed'')
                               else Inr \<lparr>stdout = '''', stderr = ''''\<rparr>),
      run_base_stats = (\<lambda>i t. Inr \<lparr>stdout = '''', stderr = ''''\<rparr>),
      run_edge_stats = (\<lambda>i t. Inr \<lparr>stdout = '''', stderr = ''''\<rparr>)\<rparr>"


section \<open>Properties\<close>

subsection \<open>Rounding to binary64\<close>

lemma round_even_close: "\<bar>of_int (round_even m) - m\<bar> \<le> 1 / 2"
  unfolding round_even_def Let_def by (auto simp: abs_if) linarith+

lemma round_even_int [simp]: "round_even (of_int n) = n"
  by (simp add: round_even_def)

lemma round_even_mono: "m \<le> m' \<Longrightarrow> round_even m \<le> round_even m'"
proof -
  assume le: "m \<le> m'"
  have lo: "\<lfloor>x\<rfloor> \<le> round_even x" and hi: "round_even x \<le> \<lfloor>x\<rfloor> + 1" for x
    by (auto simp: round_even_def Let_def)
  show ?thesis
  proof (cases "\<lfloor>m\<rfloor> = \<lfloor>m'\<rfloor>")
    case True
    with le show ?thesis
      by (auto simp: round_even_def Let_def)
  next
    case False
    with le have "\<lfloor>m\<rfloor> + 1 \<le> \<lfloor>m'\<rfloor>"
      using floor_mono[OF le] by linarith
    with lo[of m'] hi[of m] show ?thesis by linarith
  qed
qed

lemma round_even_minus: "round_even (- m) = - round_even m"
proof (cases "m = of_int \<lfloor>m\<rfloor>")
  case True
  then obtain n where "m = of_int n" ..
  then show ?thesis
    by (simp flip: of_int_minus)
next
  case False
  then have fl: "\<lfloor>- m\<rfloor> = - \<lfloor>m\<rfloor> - 1"
    by (metis ceiling_altdef ceiling_def minus_diff_eq minus_minus uminus_add_conv_diff)
  show ?thesis
    unfolding round_even_def Let_def fl by (auto simp: algebra_simps)
qed


lemma round_even_0 [simp]: "round_even 0 = 0"
  using round_even_int[of 0] by simp

lemma two_powi_less_iff [simp]: "(2::real) powi a < 2 powi b \<longleftrightarrow> a < b"
proof
  assume "(2::real) powi a < 2 powi b"
  show "a < b"
  proof (rule ccontr)
    assume "\<not> a < b"
    then have "(2::real) powi b \<le> 2 powi a"
      by (intro power_int_increasing) simp_all
    with \<open>(2::real) powi a < 2 powi b\<close> show False by simp
  qed
next
  assume "a < b"
  then show "(2::real) powi a < 2 powi b"
    by (intro power_int_strict_increasing) simp_all
qed

lemma two_powi_le_iff [simp]: "(2::real) powi a \<le> 2 powi b \<longleftrightarrow> a \<le> b"
  using two_powi_less_iff[of b a] by (simp only: not_less[symmetric])

lemma two_powi_nat: "(2::real) powi (int n) = 2 ^ n"
  by simp

lemma expo0_bounds:
  assumes "x \<noteq> 0"
  shows "2 powi (expo0 x) \<le> \<bar>x\<bar>" and "\<bar>x\<bar> < 2 powi (expo0 x + 1)"
proof -
  show "2 powi (expo0 x) \<le> \<bar>x\<bar>"
  proof (cases "1 \<le> \<bar>x\<bar>")
    case True
    define n where "n = \<lfloor>\<bar>x\<bar>\<rfloor>"
    have n: "0 < n" using True by (simp add: n_def)
    then have k: "1 \<le> bitlen n" by (simp add: bitlen_alt_def)
    have "(2::real) powi (bitlen n - 1) = 2 ^ nat (bitlen n - 1)"
      using k by (simp add: power_int_def)
    also have "\<dots> \<le> of_int n"
      using bitlen_bounds[OF n] by (metis of_int_le_iff of_int_numeral of_int_power)
    also have "\<dots> \<le> \<bar>x\<bar>"
      by (simp add: n_def)
    finally show ?thesis
      using True by (simp add: expo0_def n_def)
  next
    case False
    define N where "N = \<lceil>1 / \<bar>x\<bar>\<rceil>"
    have y: "1 < 1 / \<bar>x\<bar>" using False assms by simp
    then have N: "0 < N - 1" unfolding N_def by linarith
    have "of_int N \<le> (2::real) ^ nat (bitlen (N - 1))"
    proof -
      have "N - 1 < 2 ^ nat (bitlen (N - 1))"
        using bitlen_bounds[OF N] by simp
      then have "N \<le> 2 ^ nat (bitlen (N - 1))" by linarith
      then show ?thesis
        by (metis of_int_le_iff of_int_numeral of_int_power)
    qed
    moreover have "1 / \<bar>x\<bar> \<le> of_int N"
      by (simp add: N_def)
    ultimately have "1 / \<bar>x\<bar> \<le> 2 ^ nat (bitlen (N - 1))"
      by linarith
    then have "1 / 2 ^ nat (bitlen (N - 1)) \<le> \<bar>x\<bar>"
      using assms by (simp add: field_simps)
    moreover have "(2::real) powi (- bitlen (N - 1)) = 1 / 2 ^ nat (bitlen (N - 1))"
      using bitlen_nonneg[of "N - 1"] by (simp add: power_int_def field_simps)
    ultimately show ?thesis
      using False by (simp add: expo0_def N_def)
  qed
  show "\<bar>x\<bar> < 2 powi (expo0 x + 1)"
  proof (cases "1 \<le> \<bar>x\<bar>")
    case True
    define n where "n = \<lfloor>\<bar>x\<bar>\<rfloor>"
    have n: "0 < n" using True by (simp add: n_def)
    have "n + 1 \<le> 2 ^ nat (bitlen n)"
      using bitlen_bounds[OF n] by linarith
    then have "of_int (n + 1) \<le> (2::real) ^ nat (bitlen n)"
      by (metis of_int_le_iff of_int_numeral of_int_power)
    moreover have "\<bar>x\<bar> < of_int (n + 1)"
      unfolding n_def by linarith
    moreover have "(2::real) powi (bitlen n) = 2 ^ nat (bitlen n)"
      using bitlen_nonneg[of n] by (simp add: power_int_def)
    ultimately have "\<bar>x\<bar> < 2 powi (bitlen n)"
      by linarith
    then show ?thesis
      using True by (simp add: expo0_def n_def)
  next
    case False
    define N where "N = \<lceil>1 / \<bar>x\<bar>\<rceil>"
    have y: "1 < 1 / \<bar>x\<bar>" using False assms by simp
    then have N: "0 < N - 1" unfolding N_def by linarith
    then have k: "1 \<le> bitlen (N - 1)" by (simp add: bitlen_alt_def)
    have "(2::real) ^ nat (bitlen (N - 1) - 1) \<le> of_int (N - 1)"
      using bitlen_bounds[OF N] by (metis of_int_le_iff of_int_numeral of_int_power)
    moreover have "of_int (N - 1) < 1 / \<bar>x\<bar>"
      unfolding N_def by linarith
    ultimately have "(2::real) ^ nat (bitlen (N - 1) - 1) < 1 / \<bar>x\<bar>"
      by linarith
    then have "\<bar>x\<bar> < 1 / 2 ^ nat (bitlen (N - 1) - 1)"
      using assms by (simp add: field_simps)
    moreover have "(2::real) powi (- bitlen (N - 1) + 1) = 1 / 2 ^ nat (bitlen (N - 1) - 1)"
    proof -
      have "- bitlen (N - 1) + 1 = - int (nat (bitlen (N - 1) - 1))"
        using k by simp
      then show ?thesis
        by (simp only: power_int_minus two_powi_nat) (simp add: field_simps)
    qed
    ultimately show ?thesis
      using False by (simp add: expo0_def N_def)
  qed
qed

lemma binade_unique:
  fixes a :: real
  assumes "2 powi e \<le> a" "a < 2 powi (e + 1)" "2 powi e' \<le> a" "a < 2 powi (e' + 1)"
  shows "e = e'"
proof -
  have "(2::real) powi e < 2 powi (e' + 1)" using assms by linarith
  then have "e < e' + 1" by simp
  moreover have "(2::real) powi e' < 2 powi (e + 1)" using assms by linarith
  then have "e' < e + 1" by simp
  ultimately show ?thesis by linarith
qed

lemma expo0_eq: "2 powi e \<le> \<bar>x\<bar> \<Longrightarrow> \<bar>x\<bar> < 2 powi (e + 1) \<Longrightarrow> expo0 x = e"
proof -
  assume a: "2 powi e \<le> \<bar>x\<bar>" "\<bar>x\<bar> < 2 powi (e + 1)"
  then have "x \<noteq> 0"
    by (metis abs_zero not_le zero_less_numeral zero_less_power_int)
  from binade_unique[OF expo0_bounds[OF this] a] show ?thesis .
qed

lemma expo_eq: "2 powi e \<le> \<bar>x\<bar> \<Longrightarrow> \<bar>x\<bar> < 2 powi (e + 1) \<Longrightarrow> expo x = max (- 1022) e"
  by (simp add: expo_def expo0_eq)

lemma expo_minus [simp]: "expo (- x) = expo x"
  by (simp add: expo_def expo0_def)

lemma rd_0 [simp]: "rd 0 = 0"
  by (simp add: rd_def)

lemma rd_minus: "rd (- x) = - rd x"
  by (simp add: rd_def ulp_def round_even_minus)

lemma expo_upper: "\<bar>x\<bar> < 2 powi (expo x + 1)"
proof (cases "x = 0")
  case True
  then show ?thesis by simp
next
  case False
  have "\<bar>x\<bar> < 2 powi (expo0 x + 1)"
    using expo0_bounds(2)[OF False] .
  also have "\<dots> \<le> 2 powi (expo x + 1)"
    by (simp add: expo_def)
  finally show ?thesis .
qed

lemma expo_lower:
  assumes "x \<noteq> 0" "- 1022 < expo x"
  shows "2 powi (expo x) \<le> \<bar>x\<bar>"
proof -
  from assms(2) have "expo x = expo0 x"
    by (simp add: expo_def max_def split: if_splits)
  then show ?thesis
    using expo0_bounds(1)[OF assms(1)] by simp
qed

lemma expo_normal:
  assumes "2 powi (- 1022) \<le> \<bar>x\<bar>"
  shows "2 powi (expo x) \<le> \<bar>x\<bar>"
proof -
  have "(0::real) < 2 powi (- 1022)"
    by (rule zero_less_power_int) simp
  with assms have nz: "x \<noteq> 0"
    by auto
  have "(2::real) powi (- 1022) < 2 powi (expo0 x + 1)"
    using assms expo0_bounds(2)[OF nz] by linarith
  then have "- 1022 < expo0 x + 1"
    by (simp only: two_powi_less_iff)
  then have "expo x = expo0 x"
    by (simp add: expo_def)
  then show ?thesis
    using expo0_bounds(1)[OF nz] by simp
qed

lemma expo_mono:
  assumes "x \<noteq> 0" "\<bar>x\<bar> \<le> \<bar>y\<bar>"
  shows "expo x \<le> expo y"
proof -
  have nz: "y \<noteq> 0" using assms by auto
  have "(2::real) powi (expo0 x) < 2 powi (expo0 y + 1)"
    using expo0_bounds(1)[OF assms(1)] expo0_bounds(2)[OF nz] assms(2) by linarith
  then have "expo0 x \<le> expo0 y" by simp
  then show ?thesis by (simp add: expo_def)
qed

lemma ulp_pos [simp]: "0 < ulp x" and ulp_nonneg [simp]: "0 \<le> ulp x" and ulp_nz [simp]: "ulp x \<noteq> 0"
  by (simp_all add: ulp_def)

lemma rd_ulp: "rd x = of_int (round_even (x / ulp x)) * ulp x"
  by (simp add: rd_def)

lemma two_powi_add: "(2::real) powi a * 2 powi b = 2 powi (a + b)"
  by (simp add: power_int_add)

lemma ulp_scale: "ulp x * 2 powi 53 = 2 powi (expo x + 1)" "ulp x * 2 powi 52 = 2 powi (expo x)"
  unfolding ulp_def two_powi_add by (simp_all add: add.commute)

lemma round_even_le: "m \<le> of_int n \<Longrightarrow> round_even m \<le> n"
  using round_even_mono[of m "of_int n"] by simp

lemma round_even_ge: "of_int n \<le> m \<Longrightarrow> n \<le> round_even m"
  using round_even_mono[of "of_int n" m] by simp

lemma rd_nonneg: "0 \<le> x \<Longrightarrow> 0 \<le> rd x"
proof -
  assume "0 \<le> x"
  then have "of_int 0 \<le> x / ulp x" by simp
  then have "0 \<le> round_even (x / ulp x)"
    by (rule round_even_ge)
  then show ?thesis
    by (simp add: rd_ulp)
qed

lemma rd_nonpos: "x \<le> 0 \<Longrightarrow> rd x \<le> 0"
  using rd_nonneg[of "- x"] by (simp add: rd_minus)

lemma rd_le_binade:
  assumes "0 \<le> x"
  shows "rd x \<le> 2 powi (expo x + 1)"
proof -
  define N :: int where "N = 2 ^ 53"
  have N: "of_int N = (2::real) powi 53"
    by (simp add: N_def)
  have "x < ulp x * of_int N"
    using expo_upper[of x] assms by (simp only: N ulp_scale)
  then have "x / ulp x \<le> of_int N"
    by (simp add: field_simps)
  then have "round_even (x / ulp x) \<le> N"
    by (rule round_even_le)
  then have "(of_int (round_even (x / ulp x)) :: real) \<le> of_int N"
    by simp
  then have "rd x \<le> of_int N * ulp x"
    unfolding rd_ulp by (intro mult_right_mono) simp_all
  then show ?thesis
    by (simp only: N ulp_scale(1)[symmetric] mult.commute)
qed

lemma rd_ge_binade:
  assumes "0 < x" "2 powi (expo x) \<le> x"
  shows "2 powi (expo x) \<le> rd x"
proof -
  define N :: int where "N = 2 ^ 52"
  have N: "of_int N = (2::real) powi 52"
    by (simp add: N_def)
  have "ulp x * of_int N \<le> x"
    using assms by (simp only: N ulp_scale)
  then have "of_int N \<le> x / ulp x"
    by (simp add: field_simps)
  then have "N \<le> round_even (x / ulp x)"
    by (rule round_even_ge)
  then have "(of_int N :: real) \<le> of_int (round_even (x / ulp x))"
    by simp
  then have "of_int N * ulp x \<le> rd x"
    unfolding rd_ulp by (intro mult_right_mono) simp_all
  then show ?thesis
    by (simp only: N ulp_scale(2)[symmetric] mult.commute)
qed

lemma rd_mono_pos:
  assumes "0 < x" "x \<le> y"
  shows "rd x \<le> rd y"
proof -
  have xy: "x \<noteq> 0" "y \<noteq> 0" "0 < y" "\<bar>x\<bar> \<le> \<bar>y\<bar>" using assms by auto
  have le: "expo x \<le> expo y"
    using expo_mono[OF xy(1) xy(4)] .
  show ?thesis
  proof (cases "expo x = expo y")
    case True
    then have u: "ulp x = ulp y" by (simp add: ulp_def)
    have "x / ulp y \<le> y / ulp y"
      using assms(2) by (intro divide_right_mono) simp_all
    then have "round_even (x / ulp y) \<le> round_even (y / ulp y)"
      by (rule round_even_mono)
    then show ?thesis
      unfolding rd_ulp u by (intro mult_right_mono) simp_all
  next
    case False
    with le have lt: "expo x + 1 \<le> expo y" by simp
    have "- 1022 \<le> expo x"
      by (simp add: expo_def)
    with lt have "- 1022 < expo y"
      by linarith
    then have "2 powi (expo y) \<le> y"
      using expo_lower[OF xy(2)] xy(3) by simp
    then have "2 powi (expo y) \<le> rd y"
      using rd_ge_binade[OF xy(3)] by simp
    moreover have "rd x \<le> 2 powi (expo x + 1)"
      using rd_le_binade[of x] assms(1) by simp
    moreover have "(2::real) powi (expo x + 1) \<le> 2 powi (expo y)"
      using lt by simp
    ultimately show ?thesis by linarith
  qed
qed

lemma rd_mono: "x \<le> y \<Longrightarrow> rd x \<le> rd y"
proof -
  assume le: "x \<le> y"
  consider "0 < x" | "x \<le> 0" "0 \<le> y" | "y < 0" by linarith
  then show ?thesis
  proof cases
    case 1
    then show ?thesis using le by (rule rd_mono_pos)
  next
    case 2
    then show ?thesis using rd_nonpos[of x] rd_nonneg[of y] by linarith
  next
    case 3
    then have "rd (- y) \<le> rd (- x)"
      using le by (intro rd_mono_pos) simp_all
    then show ?thesis by (simp add: rd_minus)
  qed
qed

lemma rd_err: "\<bar>rd x - x\<bar> \<le> ulp x / 2"
proof -
  have "rd x - x = (of_int (round_even (x / ulp x)) - x / ulp x) * ulp x"
    by (simp add: rd_ulp field_simps)
  then have "\<bar>rd x - x\<bar> = \<bar>of_int (round_even (x / ulp x)) - x / ulp x\<bar> * ulp x"
    by (simp add: abs_mult)
  also have "\<dots> \<le> 1 / 2 * ulp x"
    by (intro mult_right_mono round_even_close) simp
  finally show ?thesis by simp
qed

lemma rd_rel:
  assumes "2 powi (- 1022) \<le> \<bar>x\<bar>"
  shows "\<bar>rd x - x\<bar> \<le> \<bar>x\<bar> * 2 powi (- 53)"
proof -
  have "ulp x * 2 powi 52 \<le> \<bar>x\<bar>"
    using expo_normal[OF assms] by (simp only: ulp_scale)
  then have "ulp x * 2 powi 52 * 2 powi (- 53) \<le> \<bar>x\<bar> * 2 powi (- 53)"
    by (intro mult_right_mono) simp_all
  moreover have "ulp x * 2 powi 52 * 2 powi (- 53) = ulp x / 2"
    by (simp add: power_int_minus field_simps)
  ultimately show ?thesis
    using rd_err[of x] by linarith
qed

lemma rd_repr:
  assumes "\<bar>n\<bar> < 2 ^ 53" "- 1074 \<le> k"
  shows "rd (of_int n * 2 powi k) = of_int n * 2 powi k"
proof (cases "n = 0")
  case True
  then show ?thesis by simp
next
  case False
  define x :: real where "x = of_int n * 2 powi k"
  have nz: "x \<noteq> 0" using False by (simp add: x_def)
  have "\<bar>x\<bar> = of_int \<bar>n\<bar> * 2 powi k"
    by (simp add: x_def abs_mult)
  also have "\<dots> < 2 powi 53 * 2 powi k"
  proof -
    have "(of_int \<bar>n\<bar> :: real) < of_int (2 ^ 53)"
      using assms(1) by (simp only: of_int_less_iff)
    then have "(of_int \<bar>n\<bar> :: real) < 2 powi 53"
      by simp
    then show ?thesis by (intro mult_strict_right_mono) simp_all
  qed
  also have "\<dots> = 2 powi (53 + k)"
    by (rule two_powi_add)
  finally have "\<bar>x\<bar> < 2 powi (53 + k)" .
  then have "(2::real) powi (expo0 x) < 2 powi (53 + k)"
    using expo0_bounds(1)[OF nz] by linarith
  then have "expo0 x - 52 \<le> k" by simp
  then have le: "expo x - 52 \<le> k"
    using assms(2) by (simp add: expo_def)
  define j where "j = nat (k - (expo x - 52))"
  define u where "u = ulp x"
  have u: "0 < u" by (simp add: u_def)
  have k: "2 powi k = u * 2 ^ j"
  proof -
    have "k = (expo x - 52) + int j"
      using le by (simp add: j_def)
    then have "(2::real) powi k = 2 powi ((expo x - 52) + int j)"
      by simp
    also have "\<dots> = 2 powi (expo x - 52) * 2 powi (int j)"
      by (rule two_powi_add[symmetric])
    finally show ?thesis
      by (simp add: ulp_def u_def)
  qed
  have x: "x = of_int n * (u * 2 ^ j)"
    by (simp only: x_def k)
  have "x / u = of_int (n * 2 ^ j)"
    unfolding x using u by simp
  then have "round_even (x / u) = n * 2 ^ j"
    by (simp only: round_even_int)
  then have "rd x = of_int (n * 2 ^ j) * u"
    by (simp add: rd_ulp u_def)
  also have "\<dots> = x"
    unfolding x by simp
  finally show ?thesis
    by (simp only: x_def)
qed

lemma rd_int: "\<bar>n\<bar> < 2 ^ 53 \<Longrightarrow> rd (of_int n) = of_int n"
  using rd_repr[of n 0] by simp

lemma rd_eval:
  assumes "2 powi e \<le> \<bar>x\<bar>" "\<bar>x\<bar> < 2 powi (e + 1)" "- 1022 \<le> e"
  shows "rd x = of_int (round_even (x / 2 powi (e - 52))) * 2 powi (e - 52)"
  using expo_eq[OF assms(1,2)] assms(3) by (simp add: rd_def ulp_def)

lemma round_even_eval:
  "real_of_int f \<le> m \<Longrightarrow> m < real_of_int f + 1 / 2 \<Longrightarrow> round_even m = f"
  "real_of_int f - 1 / 2 < m \<Longrightarrow> m \<le> real_of_int f \<Longrightarrow> round_even m = f"
proof -
  show "round_even m = f" if "real_of_int f \<le> m" "m < real_of_int f + 1 / 2"
  proof -
    have "\<lfloor>m\<rfloor> = f" using that by linarith
    then show ?thesis using that by (simp add: round_even_def Let_def)
  qed
  show "round_even m = f" if "real_of_int f - 1 / 2 < m" "m \<le> real_of_int f"
  proof (cases "m = real_of_int f")
    case True then show ?thesis by simp
  next
    case False
    then have "\<lfloor>m\<rfloor> = f - 1" using that by linarith
    then show ?thesis using that False by (auto simp: round_even_def Let_def)
  qed
qed

text \<open>The binary64 values of the decimal literals of the source.\<close>

lemma rd_006: "rd 0.06 = 8646911284551352 / 2 ^ 57"
proof -
  have "rd 0.06 = of_int (round_even (0.06 / 2 powi (- 5 - 52))) * 2 powi (- 5 - 52)"
    by (rule rd_eval) (simp_all add: power_int_minus)
  moreover have "round_even (0.06 / 2 powi (- 5 - 52)) = 8646911284551352"
    by (rule round_even_eval(1)) (simp_all add: power_int_minus)
  ultimately show ?thesis by (simp add: power_int_minus)
qed

lemma rd_094: "rd 0.94 = 8466767299456532 / 2 ^ 53"
proof -
  have "rd 0.94 = of_int (round_even (0.94 / 2 powi (- 1 - 52))) * 2 powi (- 1 - 52)"
    by (rule rd_eval) (simp_all add: power_int_minus)
  moreover have "round_even (0.94 / 2 powi (- 1 - 52)) = 8466767299456532"
    by (rule round_even_eval(1)) (simp_all add: power_int_minus)
  ultimately show ?thesis by (simp add: power_int_minus)
qed

lemma rd_035: "rd 0.35 = 6305039478318694 / 2 ^ 54"
proof -
  have "rd 0.35 = of_int (round_even (0.35 / 2 powi (- 2 - 52))) * 2 powi (- 2 - 52)"
    by (rule rd_eval) (simp_all add: power_int_minus)
  moreover have "round_even (0.35 / 2 powi (- 2 - 52)) = 6305039478318694"
    by (rule round_even_eval(1)) (simp_all add: power_int_minus)
  ultimately show ?thesis by (simp add: power_int_minus)
qed

lemma rd_015: "rd 0.15 = 5404319552844595 / 2 ^ 55"
proof -
  have "rd 0.15 = of_int (round_even (0.15 / 2 powi (- 3 - 52))) * 2 powi (- 3 - 52)"
    by (rule rd_eval) (simp_all add: power_int_minus)
  moreover have "round_even (0.15 / 2 powi (- 3 - 52)) = 5404319552844595"
    by (rule round_even_eval(1)) (simp_all add: power_int_minus)
  ultimately show ?thesis by (simp add: power_int_minus)
qed

lemma rd_12: "rd 1.2 = 5404319552844595 / 2 ^ 52"
proof -
  have "rd 1.2 = of_int (round_even (1.2 / 2 powi (0 - 52))) * 2 powi (0 - 52)"
    by (rule rd_eval) (simp_all add: power_int_minus)
  moreover have "round_even (1.2 / 2 powi (0 - 52)) = 5404319552844595"
    by (rule round_even_eval(1)) (simp_all add: power_int_minus)
  ultimately show ?thesis by (simp add: power_int_minus)
qed

lemma rd_1 [simp]: "rd 1 = 1"
  using rd_int[of 1] by simp

lemma rd_numeral: "numeral n < (2::int) ^ 53 \<Longrightarrow> rd (numeral n) = numeral n"
  using rd_int[of "numeral n"] by simp

text \<open>The relative error of rounding a normal number is at most \<open>2^-53\<close>.\<close>

lemma rd_lower:
  assumes "1 / 2 ^ 1022 \<le> x"
  shows "(1 - 1 / 2 ^ 53) * x \<le> rd x"
proof -
  have p: "(0::real) < 1 / 2 ^ 1022" by simp
  have x: "0 < x" using assms p by linarith
  have "2 powi (- 1022) \<le> \<bar>x\<bar>"
    using assms x by (simp add: power_int_minus field_simps)
  from rd_rel[OF this] have "\<bar>rd x - x\<bar> \<le> x * (1 / 2 ^ 53)"
    using x by (simp add: power_int_minus field_simps)
  then have "x - x * (1 / 2 ^ 53) \<le> rd x"
    by linarith
  then show ?thesis
    by (simp add: algebra_simps)
qed

lemma rd_upper:
  assumes "1 / 2 ^ 1022 \<le> x"
  shows "rd x \<le> (1 + 1 / 2 ^ 53) * x"
proof -
  have p: "(0::real) < 1 / 2 ^ 1022" by simp
  have x: "0 < x" using assms p by linarith
  have "2 powi (- 1022) \<le> \<bar>x\<bar>"
    using assms x by (simp add: power_int_minus field_simps)
  from rd_rel[OF this] have "\<bar>rd x - x\<bar> \<le> x * (1 / 2 ^ 53)"
    using x by (simp add: power_int_minus field_simps)
  then have "rd x \<le> x + x * (1 / 2 ^ 53)"
    by linarith
  then show ?thesis
    by (simp add: algebra_simps)
qed

text \<open>
  A binary64 number is a multiple of \<open>2^-1074\<close>, so two different ones are at least
  that far apart and their difference does not round to zero: the sign of the rounded
  difference is the sign of the exact one.
\<close>

lemma rd_grid: "\<exists>z. rd x = of_int z * 2 powi (- 1074)"
proof -
  define j where "j = nat (expo x + 1022)"
  have "- 1022 \<le> expo x" by (simp add: expo_def)
  then have e: "expo x - 52 = - 1074 + int j"
    by (simp add: j_def)
  have "ulp x = 2 powi (- 1074 + int j)"
    unfolding ulp_def by (simp only: e)
  also have "\<dots> = 2 powi (- 1074) * 2 powi (int j)"
    by (rule two_powi_add[symmetric])
  finally have u: "ulp x = 2 ^ j * 2 powi (- 1074)"
    by (simp only: two_powi_nat mult.commute)
  have "rd x = of_int (round_even (x / ulp x) * 2 ^ j) * 2 powi (- 1074)"
    unfolding rd_ulp[of x] u[symmetric] by (simp add: u)
  then show ?thesis ..
qed

lemma rd_nonzero:
  assumes "ulp x \<le> \<bar>x\<bar>"
  shows "x < 0 \<Longrightarrow> rd x < 0" and "0 < x \<Longrightarrow> 0 < rd x"
proof -
  have pos: "0 < rd y" if "ulp y \<le> y" for y
  proof -
    have "of_int 1 \<le> y / ulp y"
      using that by (simp add: field_simps)
    then have "1 \<le> round_even (y / ulp y)"
      by (rule round_even_ge)
    then have "0 < (of_int (round_even (y / ulp y)) :: real)"
      by simp
    then show ?thesis
      by (simp add: rd_ulp)
  qed
  show "0 < rd x" if "0 < x"
    using pos[of x] assms that by simp
  show "rd x < 0" if "x < 0"
  proof -
    have "ulp (- x) = ulp x" by (simp add: ulp_def)
    then have "0 < rd (- x)"
      using pos[of "- x"] assms that by simp
    then show ?thesis by (simp add: rd_minus)
  qed
qed

lemma ulp_le_abs:
  assumes "2 powi (- 1074) \<le> \<bar>x\<bar>"
  shows "ulp x \<le> \<bar>x\<bar>"
proof (cases "expo x = - 1022")
  case True
  then show ?thesis using assms by (simp add: ulp_def)
next
  case False
  have "- 1022 \<le> expo x" by (simp add: expo_def)
  with False have e: "- 1022 < expo x" by simp
  have "(0::real) < 2 powi (- 1074)" by (rule zero_less_power_int) simp
  with assms have nz: "x \<noteq> 0" by auto
  have "ulp x \<le> 2 powi (expo x)"
    by (simp add: ulp_def)
  also have "\<dots> \<le> \<bar>x\<bar>"
    using expo_lower[OF nz e] .
  finally show ?thesis .
qed

lemma fsub_sign:
  assumes "rd a = a" "rd b = b"
  shows "fsub a b < 0 \<longleftrightarrow> a < b" and "fsub a b = 0 \<longleftrightarrow> a = b"
proof -
  obtain za where za: "a = of_int za * 2 powi (- 1074)"
    using rd_grid[of a] assms(1) by auto
  obtain zb where zb: "b = of_int zb * 2 powi (- 1074)"
    using rd_grid[of b] assms(2) by auto
  have p: "(0::real) < 2 powi (- 1074)" by (rule zero_less_power_int) simp
  have d: "a - b = of_int (za - zb) * 2 powi (- 1074)"
    by (simp add: za zb algebra_simps)
  have far: "2 powi (- 1074) \<le> \<bar>a - b\<bar>" if "a \<noteq> b"
  proof -
    from that have "za \<noteq> zb" using za zb by auto
    then have "1 \<le> \<bar>za - zb\<bar>" by simp
    then have "(1::real) \<le> of_int \<bar>za - zb\<bar>"
      by (simp only: of_int_1_le_iff)
    then have "1 * 2 powi (- 1074) \<le> of_int \<bar>za - zb\<bar> * (2::real) powi (- 1074)"
      using p by (intro mult_right_mono) simp_all
    then show ?thesis
      unfolding d using p by (simp add: abs_mult)
  qed
  have neg: "fsub a b < 0" if "a < b"
    unfolding fsub_def using rd_nonzero(1)[OF ulp_le_abs[OF far]] that by simp
  have pos: "0 < fsub a b" if "b < a"
    unfolding fsub_def using rd_nonzero(2)[OF ulp_le_abs[OF far]] that by simp
  have zero: "fsub a a = 0"
    by (simp add: fsub_def)
  show "fsub a b < 0 \<longleftrightarrow> a < b"
    using neg pos zero by (cases a b rule: linorder_cases) auto
  show "fsub a b = 0 \<longleftrightarrow> a = b"
    using neg pos zero by (cases a b rule: linorder_cases) auto
qed

text \<open>A difference whose rounding reaches 1 is at least \<open>1 - 2^-54\<close>.\<close>

lemma rd_below_one:
  assumes "0 \<le> x" "x < 1 - 1 / 2 ^ 54"
  shows "rd x < 1"
proof -
  define y :: real where "y = 1 - 1 / 2 ^ 53"
  have y: "rd y = y"
  proof -
    have "y = of_int (2 ^ 53 - 1) * 2 powi (- 53)"
      by (simp add: y_def power_int_minus field_simps)
    moreover have "rd (of_int (2 ^ 53 - 1) * 2 powi (- 53)) = of_int (2 ^ 53 - 1) * 2 powi (- 53)"
      by (rule rd_repr) simp_all
    ultimately show ?thesis by (simp only:)
  qed
  show ?thesis
  proof (cases "x \<le> y")
    case True
    then have "rd x \<le> rd y" by (rule rd_mono)
    then show ?thesis using y by (simp add: y_def)
  next
    case False
    then have lo: "y < x" by simp
    have "rd x = of_int (round_even (x / 2 powi (- 1 - 52))) * 2 powi (- 1 - 52)"
      using lo assms by (intro rd_eval) (simp_all add: y_def power_int_minus)
    moreover have "round_even (x / 2 powi (- 1 - 52)) = 2 ^ 53 - 1"
      using lo assms by (intro round_even_eval(1)) (simp_all add: y_def power_int_minus field_simps)
    ultimately show ?thesis
      by (simp add: power_int_minus)
  qed
qed

lemma rd_ge_one: "1 \<le> \<bar>rd x\<bar> \<Longrightarrow> 1 - 1 / 2 ^ 54 \<le> \<bar>x\<bar>"
proof (rule ccontr)
  assume a: "1 \<le> \<bar>rd x\<bar>" and "\<not> 1 - 1 / 2 ^ 54 \<le> \<bar>x\<bar>"
  then have "rd \<bar>x\<bar> < 1"
    by (intro rd_below_one) simp_all
  moreover have "rd \<bar>x\<bar> = \<bar>rd x\<bar>"
    using rd_nonneg[of x] rd_nonpos[of x] by (cases "0 \<le> x") (simp_all add: abs_if rd_minus)
  ultimately show False using a by simp
qed

text \<open>A rounded difference that reaches a gap of at least 1.\<close>

lemma rd_ge_gap:
  assumes "1 \<le> g" "g \<le> \<bar>rd x\<bar>"
  shows "g * (1 - 1 / 2 ^ 53) \<le> \<bar>x\<bar>"
proof -
  have abs: "rd \<bar>x\<bar> = \<bar>rd x\<bar>"
    using rd_nonneg[of x] rd_nonpos[of x] by (cases "0 \<le> x") (simp_all add: abs_if rd_minus)
  have "1 - 1 / 2 ^ 54 \<le> \<bar>x\<bar>"
    using assms by (intro rd_ge_one) simp
  then have "(1::real) / 2 \<le> \<bar>x\<bar>"
    by simp
  moreover have "(1::real) / 2 ^ 1022 \<le> 1 / 2"
    by simp
  ultimately have "1 / 2 ^ 1022 \<le> \<bar>x\<bar>"
    by linarith
  from rd_upper[OF this] have "g \<le> (1 + 1 / 2 ^ 53) * \<bar>x\<bar>"
    using assms(2) abs by simp
  then have "g * (1 - 1 / 2 ^ 53) \<le> (1 + 1 / 2 ^ 53) * \<bar>x\<bar> * (1 - 1 / 2 ^ 53)"
    by (intro mult_right_mono) simp_all
  also have "\<dots> = (1 - (1 / 2 ^ 53) ^ 2) * \<bar>x\<bar>"
    by (simp add: algebra_simps power2_eq_square)
  also have "\<dots> \<le> 1 * \<bar>x\<bar>"
    by (intro mult_right_mono) simp_all
  finally show ?thesis by simp
qed

text \<open>The literals in the form the simplifier gives to decimals.\<close>

lemma rd_lit:
  "rd (3 / 50) = 8646911284551352 / 2 ^ 57"
  "rd (47 / 50) = 8466767299456532 / 2 ^ 53"
  "rd (7 / 20) = 6305039478318694 / 2 ^ 54"
  "rd (3 / 20) = 5404319552844595 / 2 ^ 55"
  "rd (6 / 5) = 5404319552844595 / 2 ^ 52"
  using rd_006 rd_094 rd_035 rd_015 rd_12 by simp_all

text \<open>A rounded number is a binary64 number: rounding it again changes nothing.\<close>

lemma rd_idem [simp]: "rd (rd x) = rd x"
proof -
  define n where "n = round_even (x / ulp x)"
  define k where "k = expo x - 52"
  define N :: int where "N = 2 ^ 53"
  have N: "of_int N = (2::real) powi 53"
    by (simp add: N_def)
  have u: "ulp x = 2 powi k"
    by (simp add: ulp_def k_def)
  have k: "- 1074 \<le> k"
    by (simp add: k_def expo_def)
  have x: "rd x = of_int n * 2 powi k"
    by (simp add: rd_ulp n_def u)
  have "\<bar>x\<bar> < ulp x * of_int N"
    using expo_upper[of x] by (simp only: N ulp_scale)
  then have "\<bar>x\<bar> / ulp x \<le> of_int N"
    by (simp add: field_simps)
  then have "x / ulp x \<le> of_int N" "of_int (- N) \<le> x / ulp x"
    by (simp_all add: abs_le_iff field_simps)
  then have n: "n \<le> N" "- N \<le> n"
    unfolding n_def by (auto intro: round_even_le round_even_ge)
  consider "\<bar>n\<bar> < N" | "n = N" | "n = - N"
    using n by linarith
  then show ?thesis
  proof cases
    case 1
    then show ?thesis
      unfolding x N_def using k by (rule rd_repr)
  next
    case 2
    have "of_int N * (2::real) powi k = of_int (2 ^ 52) * 2 powi (k + 1)"
      unfolding N_def by (simp add: power_int_add)
    moreover have "rd (of_int (2 ^ 52) * 2 powi (k + 1)) = of_int (2 ^ 52) * 2 powi (k + 1)"
      using k by (intro rd_repr) simp_all
    ultimately show ?thesis
      unfolding x 2 by (simp only:)
  next
    case 3
    have "of_int (- N) * (2::real) powi k = of_int (- (2 ^ 52)) * 2 powi (k + 1)"
      unfolding N_def by (simp add: power_int_add)
    moreover have "rd (of_int (- (2 ^ 52)) * 2 powi (k + 1)) = of_int (- (2 ^ 52)) * 2 powi (k + 1)"
      using k by (intro rd_repr) simp_all
    ultimately show ?thesis
      unfolding x 3 by (simp only:)
  qed
qed

subsection \<open>The candidate planner: the number of candidates\<close>

lemma candidate_loop_map:
  "candidate_loop d st sp c i tms =
     tms @ map (\<lambda>k. max 0 (min (fsub d (rd 0.15)) (fadd st (fmul sp (of_int k))))) [i..c]"
proof (induction d st sp c i tms rule: candidate_loop.induct)
  case (1 d st sp c i tms)
  show ?case
  proof (cases "i \<le> c")
    case True
    then have "[i..c] = i # [i + 1..c]"
      by (simp add: upto_rec1)
    with True 1 show ?thesis
      by (subst candidate_loop.simps) (simp add: Let_def)
  next
    case False
    then show ?thesis
      by (subst candidate_loop.simps) simp
  qed
qed

lemma makeCandidateTimes_map:
  "makeCandidateTimes d m = map (planned_time d (planned_count d m)) [1..planned_count d m]"
  by (simp add: makeCandidateTimes_def Let_def candidate_loop_map planned_time_def
      planned_count_def)

lemma length_makeCandidateTimes:
  "length (makeCandidateTimes d m) = nat (planned_count d m)"
  by (simp add: makeCandidateTimes_map)

lemma nth_makeCandidateTimes:
  assumes "i < nat (planned_count d m)"
  shows "makeCandidateTimes d m ! i = planned_time d (planned_count d m) (1 + int i)"
  using assms by (simp add: makeCandidateTimes_map)

lemma rd_half_int:
  assumes "\<bar>n\<bar> < 2 ^ 52"
  shows "rd (of_int n + 1 / 2) = of_int n + 1 / 2"
proof -
  have "\<bar>2 * n + 1\<bar> < 2 ^ 53"
    using assms by simp
  then have "rd (of_int (2 * n + 1) * 2 powi (- 1)) = of_int (2 * n + 1) * 2 powi (- 1)"
    by (rule rd_repr) simp
  moreover have "of_int (2 * n + 1) * 2 powi (- 1) = (of_int n + 1 / 2 :: real)"
    by (simp add: power_int_minus field_simps)
  ultimately show ?thesis
    by (simp only:)
qed

text \<open>The floor of a rounded number between an integer and the next half.\<close>

lemma floor_rd:
  assumes "of_int n \<le> x" "x \<le> of_int n + 1 / 2" "\<bar>n\<bar> < 2 ^ 52"
  shows "\<lfloor>rd x\<rfloor> = n"
proof -
  have "\<bar>n\<bar> < 2 ^ 53"
    using assms(3) by simp
  then have "rd (of_int n) = of_int n"
    by (rule rd_int)
  then have "of_int n \<le> rd x"
    using rd_mono[OF assms(1)] by simp
  moreover have "rd x \<le> of_int n + 1 / 2"
    using rd_mono[OF assms(2)] rd_half_int[OF assms(3)] by simp
  ultimately show ?thesis
    by linarith
qed

lemma floor_rd_le:
  assumes "x \<le> of_int n + 1 / 2" "\<bar>n\<bar> < 2 ^ 52"
  shows "\<lfloor>rd x\<rfloor> \<le> n"
proof -
  have "rd x \<le> of_int n + 1 / 2"
    using rd_mono[OF assms(1)] rd_half_int[OF assms(2)] by simp
  then show ?thesis
    by linarith
qed

lemma floor_rd_ge:
  assumes "of_int n \<le> x" "\<bar>n\<bar> < 2 ^ 53"
  shows "n \<le> \<lfloor>rd x\<rfloor>"
proof -
  have "rd (of_int n) = of_int n"
    using assms(2) by (rule rd_int)
  then have "of_int n \<le> rd x"
    using rd_mono[OF assms(1)] by simp
  then show ?thesis
    by linarith
qed

lemma planned_count_mono: "d \<le> d' \<Longrightarrow> planned_count d m \<le> planned_count d' m"
proof -
  assume "d \<le> d'"
  moreover have "0 \<le> rd 0.35"
    by (rule rd_nonneg) simp
  ultimately have "d / rd 0.35 \<le> d' / rd 0.35"
    by (rule divide_right_mono)
  then have "fdiv d (rd 0.35) \<le> fdiv d' (rd 0.35)"
    unfolding fdiv_def by (rule rd_mono)
  then have "\<lfloor>fdiv d (rd 0.35)\<rfloor> \<le> \<lfloor>fdiv d' (rd 0.35)\<rfloor>"
    by (rule floor_mono)
  then show ?thesis
    unfolding planned_count_def by linarith
qed

lemma planned_count_range: "40 \<le> planned_count d 180" "planned_count d 180 \<le> 180"
  by (simp_all add: planned_count_def)

lemma planned_count_short:
  assumes "d \<le> 14"
  shows "planned_count d 180 = 40"
proof -
  have "d / rd 0.35 \<le> of_int 40 + 1 / 2"
    using assms by (simp add: rd_lit field_simps)
  then have "\<lfloor>rd (d / rd 0.35)\<rfloor> \<le> 40"
    by (rule floor_rd_le) simp
  then show ?thesis
    by (simp add: planned_count_def fdiv_def)
qed

text \<open>
  The binary64 quotient is never below the largest integer under the exact quotient
  \<open>d / 0.35\<close> and, up to 180, at most one more.
\<close>

lemma planned_count_exact_lower:
  assumes "0 < d"
  shows "min 180 (max 40 \<lfloor>d / 0.35\<rfloor>) \<le> planned_count d 180"
proof -
  define n where "n = min 180 \<lfloor>d / 0.35\<rfloor>"
  have n: "\<bar>n\<bar> < 2 ^ 53"
  proof -
    have "0 \<le> d / 0.35" using assms by simp
    then have "0 \<le> \<lfloor>d / 0.35\<rfloor>" by simp
    then have "0 \<le> n" "n \<le> 180" by (simp_all add: n_def)
    then show ?thesis by simp
  qed
  have "of_int n \<le> d / 0.35"
  proof -
    have "n \<le> \<lfloor>d / 0.35\<rfloor>" by (simp add: n_def)
    then have "(of_int n :: real) \<le> of_int \<lfloor>d / 0.35\<rfloor>" by simp
    then show ?thesis by linarith
  qed
  also have "d / 0.35 \<le> d / rd 0.35"
    using assms by (simp add: rd_lit field_simps)
  finally have "n \<le> \<lfloor>rd (d / rd 0.35)\<rfloor>"
    using n by (rule floor_rd_ge)
  then show ?thesis
    unfolding planned_count_def fdiv_def n_def by linarith
qed

lemma planned_count_exact_upper:
  assumes "0 < d"
  shows "planned_count d 180 \<le> min 180 (max 40 \<lfloor>d / 0.35\<rfloor>) + 1"
proof (cases "180 \<le> \<lfloor>d / 0.35\<rfloor>")
  case True
  then show ?thesis
    by (simp add: planned_count_def)
next
  case False
  define n where "n = \<lfloor>d / 0.35\<rfloor>"
  have "0 \<le> d / 0.35" using assms by simp
  then have n0: "0 \<le> n" by (simp add: n_def)
  have n1: "n < 180" using False by (simp add: n_def)
  have "d / 0.35 < of_int n + 1"
    unfolding n_def by linarith
  then have d: "d < (of_int n + 1) * 0.35"
    by (simp add: field_simps)
  have r: "(of_int n :: real) \<le> 179" "0 \<le> (of_int n :: real)"
    using n0 n1 by simp_all
  have "d \<le> (of_int (n + 1) + 1 / 2) * rd 0.35"
    using d r by (simp add: rd_lit algebra_simps)
  then have "d / rd 0.35 \<le> of_int (n + 1) + 1 / 2"
    by (simp add: rd_lit field_simps)
  then have "\<lfloor>rd (d / rd 0.35)\<rfloor> \<le> n + 1"
    using n0 n1 by (intro floor_rd_le) simp_all
  then show ?thesis
    unfolding planned_count_def fdiv_def n_def[symmetric] by linarith
qed

lemma pc60: "planned_count 60 180 = 171"
proof -
  have "\<lfloor>rd (60 / rd 0.35)\<rfloor> = 171"
    by (rule floor_rd) (simp_all add: rd_lit)
  then show ?thesis
    by (simp add: planned_count_def fdiv_def)
qed

lemma pc5: "planned_count 5 180 = 40"
  by (rule planned_count_short) simp

lemma pc10: "planned_count 10 180 = 40"
  by (rule planned_count_short) simp

lemma len10: "length (makeCandidateTimes 10 180) = 40"
  by (simp add: length_makeCandidateTimes pc10)

text \<open>The Number that \<open>Number("14.350000")\<close> yields, and the count there.\<close>

lemma rd_1435: "rd 14.35 = 8078331831595827 / 2 ^ 49"
proof -
  have "rd 14.35 = of_int (round_even (14.35 / 2 powi (3 - 52))) * 2 powi (3 - 52)"
    by (rule rd_eval) (simp_all add: power_int_minus)
  moreover have "round_even (14.35 / 2 powi (3 - 52)) = 8078331831595827"
    by (rule round_even_eval(1)) (simp_all add: power_int_minus)
  ultimately show ?thesis by (simp add: power_int_minus)
qed

lemma pc1435: "planned_count (8078331831595827 / 2 ^ 49) 180 = 41"
proof -
  have "\<lfloor>rd (8078331831595827 / 2 ^ 49 / rd 0.35)\<rfloor> = 41"
    by (rule floor_rd) (simp_all add: rd_lit)
  then show ?thesis
    by (simp add: planned_count_def fdiv_def)
qed

text \<open>
  Claim C5 as stated fails: the code takes the floor of the binary64 quotient of the
  duration by the Number \<open>0.35\<close>. For the duration that \<open>ffprobe\<close>'s report
  \<open>14.350000\<close> reads as, a Number just below \<open>14.35\<close>, that quotient is 41 and
  the planner returns 41 timestamps, while \<open>floor(duration / 0.35)\<close> is 40.
\<close>

theorem makeCandidateTimes_count_rounded:
  "rd 14.35 = 8078331831595827 / 2 ^ 49 \<and>
   (0::real) < 8078331831595827 / 2 ^ 49 \<and>
   length (makeCandidateTimes (8078331831595827 / 2 ^ 49) 180) = 41 \<and>
   min 180 (max 40 \<lfloor>(8078331831595827 / 2 ^ 49 :: real) / 0.35\<rfloor>) = 40"
proof -
  have f: "\<lfloor>(8078331831595827 / 2 ^ 49 :: real) / 0.35\<rfloor> = 40"
    by (simp add: floor_eq_iff)
  have l: "length (makeCandidateTimes (8078331831595827 / 2 ^ 49) 180) = 41"
    unfolding length_makeCandidateTimes pc1435 by simp
  from f l rd_1435 show ?thesis
    by simp
qed

text \<open>
  Claim C5, amended. For every duration \<open>d > 0\<close> and \<open>maxCandidates = 180\<close> the
  planner returns \<open>min(180, max(40, floor(q)))\<close> timestamps, where \<open>q\<close> is the
  binary64 quotient of \<open>d\<close> by the Number \<open>0.35\<close>; that is
  \<open>min(180, max(40, floor(d / 0.35)))\<close> or one more. The number does not decrease
  when the duration grows, never exceeds 180, is 40 whenever \<open>floor(d / 0.35) < 40\<close>,
  and is 171 for a duration of 60.
\<close>

theorem makeCandidateTimes_count:
  "0 < d \<Longrightarrow>
     length (makeCandidateTimes d 180) = nat (min 180 (max 40 \<lfloor>fdiv d (rd 0.35)\<rfloor>)) \<and>
     min 180 (max 40 \<lfloor>d / 0.35\<rfloor>) \<le> int (length (makeCandidateTimes d 180)) \<and>
     int (length (makeCandidateTimes d 180)) \<le> min 180 (max 40 \<lfloor>d / 0.35\<rfloor>) + 1 \<and>
     (\<forall>d'. d \<le> d' \<longrightarrow> length (makeCandidateTimes d 180) \<le> length (makeCandidateTimes d' 180)) \<and>
     length (makeCandidateTimes d 180) \<le> 180 \<and>
     (\<lfloor>d / 0.35\<rfloor> < 40 \<longrightarrow> length (makeCandidateTimes d 180) = 40) \<and>
     length (makeCandidateTimes 60 180) = 171"
proof (intro conjI allI impI)
  assume d: "0 < d"
  have len: "int (length (makeCandidateTimes d 180)) = planned_count d 180"
    using planned_count_range(1)[of d] by (simp add: length_makeCandidateTimes)
  show "length (makeCandidateTimes d 180) = nat (min 180 (max 40 \<lfloor>fdiv d (rd 0.35)\<rfloor>))"
    by (simp only: length_makeCandidateTimes planned_count_def)
  show "min 180 (max 40 \<lfloor>d / 0.35\<rfloor>) \<le> int (length (makeCandidateTimes d 180))"
    unfolding len using d by (rule planned_count_exact_lower)
  show "int (length (makeCandidateTimes d 180)) \<le> min 180 (max 40 \<lfloor>d / 0.35\<rfloor>) + 1"
    unfolding len using d by (rule planned_count_exact_upper)
  show "length (makeCandidateTimes d 180) \<le> length (makeCandidateTimes d' 180)" if "d \<le> d'" for d'
    using planned_count_mono[OF that, of 180] by (simp only: length_makeCandidateTimes nat_mono)
  show "length (makeCandidateTimes d 180) \<le> 180"
    unfolding length_makeCandidateTimes planned_count_def by linarith
  show "length (makeCandidateTimes d 180) = 40" if "\<lfloor>d / 0.35\<rfloor> < 40"
  proof -
    from that have "d / 0.35 < 40"
      by (simp add: floor_less_iff)
    then have "d \<le> 14"
      by (simp add: field_simps)
    then show ?thesis
      by (simp add: length_makeCandidateTimes planned_count_short)
  qed
  show "length (makeCandidateTimes 60 180) = 171"
    by (simp add: length_makeCandidateTimes pc60)
qed

text \<open>The count at the durations 5 and 60.\<close>

theorem makeCandidateTimes_count_witness:
  "(0::real) < 5 \<and> (5::real) \<le> 60 \<and> \<lfloor>(5::real) / 0.35\<rfloor> < 40 \<and>
   length (makeCandidateTimes 5 180) = 40 \<and>
   length (makeCandidateTimes 5 180) \<le> length (makeCandidateTimes 60 180) \<and>
   length (makeCandidateTimes 60 180) = 171"
proof -
  have f: "\<lfloor>(5::real) / 0.35\<rfloor> = 14" by (simp add: floor_eq_iff)
  have h: "(0::real) < 5" by simp
  from makeCandidateTimes_count[OF h] f show ?thesis by simp
qed


subsection \<open>The candidate planner: the timestamps\<close>

lemma planned_time_raw:
  "planned_time d c k = max 0 (min (fsub d (rd 0.15)) (raw_time d c k))"
  by (simp add: planned_time_def raw_time_def)

text \<open>Rounding a positive number changes it by less than one part in \<open>10^9\<close>.\<close>

lemma rd_slack:
  assumes "lo \<le> x" "x \<le> hi" "1 / 10 ^ 6 \<le> lo"
  shows "lo - lo / 10 ^ 9 \<le> rd x" and "rd x \<le> hi + hi / 10 ^ 9"
proof -
  have "(1::real) / 2 ^ 1022 \<le> 1 / 10 ^ 6"
    by simp
  then have n: "1 / 2 ^ 1022 \<le> x"
    using assms by linarith
  have pos: "0 \<le> lo" "0 \<le> x" "0 \<le> hi"
    using assms by simp_all
  have "x / 10 ^ 9 - x / 2 ^ 53 = x * (1 / 10 ^ 9 - 1 / 2 ^ 53)"
    by (simp add: algebra_simps)
  moreover have "0 \<le> x * (1 / 10 ^ 9 - 1 / 2 ^ 53)"
    using pos(2) by (intro mult_nonneg_nonneg) simp_all
  ultimately have e: "x / 2 ^ 53 \<le> x / 10 ^ 9"
    by linarith
  have "x - x / 2 ^ 53 \<le> rd x" "rd x \<le> x + x / 2 ^ 53"
    using rd_lower[OF n] rd_upper[OF n] by (simp_all add: algebra_simps)
  moreover have "lo - lo / 10 ^ 9 \<le> x - x / 10 ^ 9" "x + x / 10 ^ 9 \<le> hi + hi / 10 ^ 9"
    using assms(1,2) by simp_all
  ultimately show "lo - lo / 10 ^ 9 \<le> rd x" and "rd x \<le> hi + hi / 10 ^ 9"
    using e by linarith+
qed

lemma fadd_count:
  assumes "0 \<le> c" "c \<le> 180"
  shows "fadd (of_int c) 1 = of_int c + 1"
proof -
  have "\<bar>c + 1\<bar> < 2 ^ 53"
    using assms by simp
  then have "rd (of_int (c + 1)) = of_int (c + 1)"
    by (rule rd_int)
  then show ?thesis
    by (simp add: fadd_def)
qed

text \<open>
  The timestamp before the clamp, for a duration of at least an eighth of a second,
  against the exact \<open>d * 0.06 + d * 0.88 * k / (c + 1)\<close>.
\<close>

lemma raw_time_encl:
  fixes d :: real and c k :: int
  assumes d: "1 / 8 \<le> d" and k: "1 \<le> k" "k \<le> c" and c: "c \<le> 180"
  shows "0.0599998 * d + 0.8799994 * (d / (of_int c + 1) * of_int k) \<le> raw_time d c k"
    and "raw_time d c k \<le> 0.0600002 * d + 0.8800006 * (d / (of_int c + 1) * of_int k)"
proof -
  define w where "w = d / (of_int c + 1)"
  define v where "v = w * of_int k"
  define a where "a = fmul d (rd 0.06)"
  define b where "b = fmul d (rd 0.94)"
  define s where "s = max 0 (fsub b a)"
  define h where "h = fdiv s (fadd (of_int c) 1)"
  define y where "y = fmul h (of_int k)"
  have x: "raw_time d c k = fadd a y"
    by (simp add: raw_time_def a_def b_def s_def h_def y_def)
  have c1: "0 < (of_int c + 1 :: real)" "(of_int c + 1 :: real) \<le> 181"
    using k c by simp_all
  have "d / 181 \<le> d / (of_int c + 1)"
    using d c1 by (intro divide_left_mono) simp_all
  then have w: "d / 181 \<le> w"
    by (simp add: w_def)
  have w0: "1 / 1448 \<le> w"
    using w d by linarith
  have kr: "(1::real) \<le> of_int k"
    using k by simp
  have "w * 1 \<le> w * of_int k"
    using kr w0 by (intro mult_left_mono) simp_all
  then have wv: "w \<le> v"
    by (simp add: v_def)
  have a: "0.0599999 * d \<le> a" "a \<le> 0.0600001 * d"
  proof -
    have p: "0.05999995 * d \<le> d * rd 0.06" "d * rd 0.06 \<le> 0.06 * d"
      using d by (simp_all add: rd_lit)
    have n: "1 / 10 ^ 6 \<le> 0.05999995 * d"
      using d by simp
    show "0.0599999 * d \<le> a" "a \<le> 0.0600001 * d"
      using rd_slack[OF p n] d unfolding a_def fmul_def by simp_all
  qed
  have b: "0.9399999 * d \<le> b" "b \<le> 0.9400001 * d"
  proof -
    have p: "0.93999995 * d \<le> d * rd 0.94" "d * rd 0.94 \<le> 0.94 * d"
      using d by (simp_all add: rd_lit)
    have n: "1 / 10 ^ 6 \<le> 0.93999995 * d"
      using d by simp
    show "0.9399999 * d \<le> b" "b \<le> 0.9400001 * d"
      using rd_slack[OF p n] d unfolding b_def fmul_def by simp_all
  qed
  have s: "0.8799997 * d \<le> s" "s \<le> 0.8800003 * d"
  proof -
    have p: "0.8799998 * d \<le> b - a" "b - a \<le> 0.8800002 * d"
      using a b by simp_all
    have n: "1 / 10 ^ 6 \<le> 0.8799998 * d"
      using d by simp
    have r: "0.8799997 * d \<le> fsub b a" "fsub b a \<le> 0.8800003 * d"
      using rd_slack[OF p n] d unfolding fsub_def by simp_all
    then have "0 \<le> fsub b a"
      using d by linarith
    with r show "0.8799997 * d \<le> s" "s \<le> 0.8800003 * d"
      by (simp_all add: s_def)
  qed
  have h: "0.8799996 * w \<le> h" "h \<le> 0.8800004 * w"
  proof -
    have "0 \<le> c" using k by simp
    then have f: "fadd (of_int c) 1 = of_int c + 1"
      using c by (rule fadd_count)
    have c0: "0 \<le> (of_int c + 1 :: real)"
      using c1(1) by simp
    have p: "0.8799997 * w \<le> s / (of_int c + 1)" "s / (of_int c + 1) \<le> 0.8800003 * w"
      using divide_right_mono[OF s(1) c0] divide_right_mono[OF s(2) c0]
      by (simp_all only: w_def times_divide_eq_right)
    have n: "1 / 10 ^ 6 \<le> 0.8799997 * w"
      using w0 by simp
    show "0.8799996 * w \<le> h" "h \<le> 0.8800004 * w"
      using rd_slack[OF p n] w0 unfolding h_def fdiv_def f by simp_all
  qed
  have y: "0.8799995 * v \<le> y" "y \<le> 0.8800005 * v"
  proof -
    have k0: "(0::real) \<le> of_int k"
      using kr by simp
    have p: "0.8799996 * v \<le> h * of_int k" "h * of_int k \<le> 0.8800004 * v"
      using mult_right_mono[OF h(1) k0] mult_right_mono[OF h(2) k0]
      by (simp_all only: v_def mult.assoc)
    have n: "1 / 10 ^ 6 \<le> 0.8799996 * v"
      using w0 wv by simp
    show "0.8799995 * v \<le> y" "y \<le> 0.8800005 * v"
      using rd_slack[OF p n] w0 wv unfolding y_def fmul_def by simp_all
  qed
  have p: "0.0599999 * d + 0.8799995 * v \<le> a + y" "a + y \<le> 0.0600001 * d + 0.8800005 * v"
    using a y by simp_all
  have n: "1 / 10 ^ 6 \<le> 0.0599999 * d + 0.8799995 * v"
    using d w0 wv by simp
  have v0: "0 \<le> v" "0 \<le> d"
    using w0 wv d by simp_all
  have "0.0599998 * d + 0.8799994 * v \<le> raw_time d c k"
    "raw_time d c k \<le> 0.0600002 * d + 0.8800006 * v"
    using rd_slack[OF p n] v0 unfolding x fadd_def by (simp_all add: add_divide_distrib)
  then show "0.0599998 * d + 0.8799994 * (d / (of_int c + 1) * of_int k) \<le> raw_time d c k"
    and "raw_time d c k \<le> 0.0600002 * d + 0.8800006 * (d / (of_int c + 1) * of_int k)"
    by (simp_all add: v_def w_def)
qed

text \<open>The clamp \<open>duration - 0.15\<close>.\<close>

lemma clamp_nonpos:
  assumes "d \<le> 1 / 8"
  shows "fsub d (rd 0.15) \<le> 0"
proof -
  have "d - rd 0.15 \<le> 0"
    using assms by (simp add: rd_lit)
  then show ?thesis
    unfolding fsub_def by (rule rd_nonpos)
qed

lemma clamp_encl:
  assumes "15 / 94 \<le> d"
  shows "(1 - 1 / 2 ^ 53) * (d - rd 0.15) \<le> fsub d (rd 0.15)"
    and "fsub d (rd 0.15) \<le> (1 + 1 / 2 ^ 53) * (d - rd 0.15)"
proof -
  have "(1::real) / 2 ^ 1022 \<le> 1 / 1000" "1 / 1000 \<le> d - rd 0.15"
    using assms by (simp_all add: rd_lit)
  then have n: "1 / 2 ^ 1022 \<le> d - rd 0.15"
    by linarith
  show "(1 - 1 / 2 ^ 53) * (d - rd 0.15) \<le> fsub d (rd 0.15)"
    unfolding fsub_def using n by (rule rd_lower)
  show "fsub d (rd 0.15) \<le> (1 + 1 / 2 ^ 53) * (d - rd 0.15)"
    unfolding fsub_def using n by (rule rd_upper)
qed

lemma clamp_window:
  assumes "15 / 94 \<le> d"
  shows "d * 0.06 \<le> fsub d (rd 0.15)"
    and "fsub d (rd 0.15) \<le> (d - 0.15) * (1 + 1 / 2 ^ 50)"
    and "0 \<le> fsub d (rd 0.15)"
proof -
  show lo: "d * 0.06 \<le> fsub d (rd 0.15)"
    using clamp_encl(1)[OF assms] assms by (simp add: rd_lit algebra_simps)
  show "fsub d (rd 0.15) \<le> (d - 0.15) * (1 + 1 / 2 ^ 50)"
    using clamp_encl(2)[OF assms] assms by (simp add: rd_lit algebra_simps)
  show "0 \<le> fsub d (rd 0.15)"
    using lo assms by simp
qed

text \<open>The timestamps before the clamp do not decrease along the loop.\<close>

lemma raw_time_mono:
  assumes "0 \<le> c" "j \<le> k"
  shows "raw_time d c j \<le> raw_time d c k"
proof -
  define s where "s = max 0 (fsub (fmul d (rd 0.94)) (fmul d (rd 0.06)))"
  define h where "h = fdiv s (fadd (of_int c) 1)"
  have "(0::real) \<le> of_int c + 1"
    using assms(1) by simp
  then have "0 \<le> fadd (of_int c) 1"
    unfolding fadd_def by (rule rd_nonneg)
  moreover have "0 \<le> s"
    by (simp add: s_def)
  ultimately have "0 \<le> s / fadd (of_int c) 1"
    by (rule divide_nonneg_nonneg[rotated])
  then have h: "0 \<le> h"
    unfolding h_def fdiv_def by (rule rd_nonneg)
  have "(of_int j :: real) \<le> of_int k"
    using assms(2) by simp
  then have "h * of_int j \<le> h * of_int k"
    using h by (rule mult_left_mono)
  then have "fmul h (of_int j) \<le> fmul h (of_int k)"
    unfolding fmul_def by (rule rd_mono)
  then have "fmul d (rd 0.06) + fmul h (of_int j) \<le> fmul d (rd 0.06) + fmul h (of_int k)"
    by simp
  then have "fadd (fmul d (rd 0.06)) (fmul h (of_int j)) \<le> fadd (fmul d (rd 0.06)) (fmul h (of_int k))"
    unfolding fadd_def by (rule rd_mono)
  then show ?thesis
    by (simp add: raw_time_def h_def s_def)
qed

lemma planned_time_mono:
  assumes "0 \<le> c" "j \<le> k"
  shows "planned_time d c j \<le> planned_time d c k"
  using raw_time_mono[OF assms, of d] unfolding planned_time_raw by (simp add: max_def min_def)

text \<open>
  The window of the timestamps before the clamp, in terms of the duration and of the
  exact step width \<open>w = d / (c + 1)\<close>.
\<close>

lemma raw_time_window:
  fixes d :: real and c j k :: int
  assumes d: "1 / 8 \<le> d" and k: "1 \<le> k" "k \<le> c" and c: "c \<le> 180"
  defines "w \<equiv> d / (of_int c + 1)"
  shows "0.0599998 * d + 0.8799994 * w \<le> raw_time d c k"
    and "raw_time d c k \<le> 0.0600002 * d + 0.8800006 * (d - w)"
    and "k \<le> c - 1 \<Longrightarrow> raw_time d c k \<le> 0.0600002 * d + 0.8800006 * (d - 2 * w)"
    and "1 \<le> j \<Longrightarrow> j < k \<Longrightarrow> raw_time d c j < raw_time d c k"
    and "d / 181 \<le> w"
proof -
  define v where "v i = w * of_int i" for i :: int
  have c1: "0 < (of_int c + 1 :: real)" "(of_int c + 1 :: real) \<le> 181"
    using k c by simp_all
  have "d / 181 \<le> d / (of_int c + 1)"
    using d c1 by (intro divide_left_mono) simp_all
  then show w: "d / 181 \<le> w"
    by (simp add: w_def)
  have d0: "0 < d"
    using d by simp
  have w0: "0 < w"
    using w d0 by simp
  have dw: "w * (of_int c + 1) = d"
    using c1(1) by (simp add: w_def)
  have step: "v i + w * of_int n \<le> v i'" if "i + n \<le> i'" for i i' n :: int
  proof -
    have "(of_int (i + n) :: real) \<le> of_int i'"
      using that by (simp only: of_int_le_iff)
    then have "w * of_int (i + n) \<le> w * of_int i'"
      using w0 by (intro mult_left_mono) simp_all
    then show ?thesis
      by (simp add: v_def algebra_simps)
  qed
  have v0: "v 0 = 0"
    by (simp add: v_def)
  have vc: "v c = d - w"
    using dw by (simp add: v_def algebra_simps)
  have lo: "w \<le> v k"
    using step[of 0 1 k] k(1) v0 by simp
  have hi: "v k \<le> d - w"
    using step[of k 0 c] k(2) vc by simp
  have enc: "0.0599998 * d + 0.8799994 * v k \<le> raw_time d c k"
    "raw_time d c k \<le> 0.0600002 * d + 0.8800006 * v k"
    using raw_time_encl[OF d k c] by (simp_all only: w_def v_def)
  show "0.0599998 * d + 0.8799994 * w \<le> raw_time d c k"
    using enc(1) lo by (simp add: add_divide_distrib diff_divide_distrib)
  show "raw_time d c k \<le> 0.0600002 * d + 0.8800006 * (d - w)"
    using enc(2) hi by (simp add: add_divide_distrib diff_divide_distrib)
  show "raw_time d c k \<le> 0.0600002 * d + 0.8800006 * (d - 2 * w)" if "k \<le> c - 1"
  proof -
    have "v k + w * of_int 1 \<le> v c"
      using that by (intro step) simp
    then have "v k \<le> d - 2 * w"
      using vc by simp
    with enc(2) show ?thesis
      by (simp add: add_divide_distrib diff_divide_distrib)
  qed
  show "raw_time d c j < raw_time d c k" if j: "1 \<le> j" "j < k"
  proof -
    have jc: "j \<le> c" using j k by simp
    have encj: "raw_time d c j \<le> 0.0600002 * d + 0.8800006 * v j"
      using raw_time_encl(2)[OF d j(1) jc c] by (simp only: w_def v_def)
    have "v j + w * of_int 1 \<le> v k"
      using j(2) by (intro step) simp
    then have a: "v j + w \<le> v k"
      by simp
    have b: "v j \<le> d"
      using step[of j 0 c] jc vc w0 by simp
    from encj enc(1) a b w d0 show ?thesis
      by (simp add: add_divide_distrib diff_divide_distrib)
  qed
qed

text \<open>The bounds of a planned timestamp.\<close>

lemma planned_time_upper:
  assumes d: "0 < d" and k: "1 \<le> k" "k \<le> c" and c: "c \<le> 180"
  shows "planned_time d c k \<le> d * 0.94"
proof (cases "1 / 8 \<le> d")
  case True
  define w where "w = d / (of_int c + 1)"
  have "raw_time d c k \<le> 0.0600002 * d + 0.8800006 * (d - w)" "d / 181 \<le> w"
    using raw_time_window(2,5)[OF True k c] by (simp_all only: w_def)
  then have "raw_time d c k \<le> d * 0.94"
    using d by (simp add: add_divide_distrib diff_divide_distrib)
  then show ?thesis
    unfolding planned_time_raw using d by (simp add: max_def min_def)
next
  case False
  then have "fsub d (rd 0.15) \<le> 0"
    by (intro clamp_nonpos) simp
  then have "planned_time d c k = 0"
    unfolding planned_time_raw by (simp add: max_def min_def)
  then show ?thesis
    using d by simp
qed

lemma planned_time_lower:
  assumes d: "15 / 94 \<le> d" and k: "1 \<le> k" "k \<le> c" and c: "c \<le> 180"
  shows "d * 0.06 \<le> planned_time d c k"
proof -
  have d8: "1 / 8 \<le> d" using d by simp
  define w where "w = d / (of_int c + 1)"
  have "0.0599998 * d + 0.8799994 * w \<le> raw_time d c k" "d / 181 \<le> w"
    using raw_time_window(1,5)[OF d8 k c] by (simp_all only: w_def)
  then have "d * 0.06 \<le> raw_time d c k"
    using d by (simp add: add_divide_distrib diff_divide_distrib)
  with clamp_window(1)[OF d] show ?thesis
    unfolding planned_time_raw by (simp add: max_def min_def)
qed

lemma planned_time_clamp:
  "planned_time d c k \<le> max 0 (fsub d (rd 0.15))"
  unfolding planned_time_raw by (simp add: max_def min_def)

text \<open>
  From 1.46 seconds on every timestamp before the last one stays below the clamp, so
  the sequence is strictly ascending.
\<close>

lemma raw_time_below_clamp:
  assumes d: "1.46 \<le> d" and k: "1 \<le> k" "k \<le> planned_count d 180 - 1"
  shows "raw_time d (planned_count d 180) k < fsub d (rd 0.15)"
proof -
  define c where "c = planned_count d 180"
  define C where "C = fsub d (rd 0.15)"
  define w where "w = d / (of_int c + 1)"
  have c: "c \<le> 180" "40 \<le> c"
    using planned_count_range[of d] by (simp_all add: c_def)
  have kc: "k \<le> c" "k \<le> c - 1"
    using k by (simp_all add: c_def)
  have d8: "1 / 8 \<le> d" and d15: "15 / 94 \<le> d"
    using d by simp_all
  have up: "raw_time d c k \<le> 0.0600002 * d + 0.8800006 * (d - 2 * w)"
    using raw_time_window(3)[OF d8 k(1) kc(1) c(1) kc(2)] by (simp only: w_def)
  have w: "d / 181 \<le> w"
    using raw_time_window(5)[OF d8 k(1) kc(1) c(1)] by (simp only: w_def)
  have cl: "(1 - 1 / 2 ^ 53) * (d - 5404319552844595 / 2 ^ 55) \<le> C"
    using clamp_encl(1)[OF d15] unfolding C_def rd_015 .
  have "raw_time d c k < C"
  proof (cases "d \<le> 14")
    case True
    then have "c = 40"
      unfolding c_def by (rule planned_count_short)
    then have "w = d / 41"
      by (simp add: w_def)
    with up cl d show ?thesis
      by (simp add: add_divide_distrib diff_divide_distrib)
  next
    case False
    with up cl w show ?thesis
      by (simp add: add_divide_distrib diff_divide_distrib)
  qed
  then show ?thesis
    by (simp only: c_def C_def)
qed

lemma planned_time_strict:
  assumes d: "1.46 \<le> d" and j: "1 \<le> j" "j < k" and k: "k \<le> planned_count d 180"
  shows "planned_time d (planned_count d 180) j < planned_time d (planned_count d 180) k"
proof -
  define c where "c = planned_count d 180"
  define C where "C = fsub d (rd 0.15)"
  define w where "w = d / (of_int c + 1)"
  have c: "c \<le> 180"
    using planned_count_range[of d] by (simp add: c_def)
  have d8: "1 / 8 \<le> d"
    using d by simp
  have k1: "1 \<le> k" using j by simp
  have kc: "k \<le> c" using k by (simp add: c_def)
  have jc: "j \<le> c" "j \<le> c - 1"
    using j k by (simp_all add: c_def)
  have "raw_time d (planned_count d 180) j < fsub d (rd 0.15)"
    using d j(1) jc(2) unfolding c_def by (rule raw_time_below_clamp)
  then have below: "raw_time d c j < C"
    by (simp only: c_def C_def)
  have less: "raw_time d c j < raw_time d c k"
    using raw_time_window(4)[OF d8 k1 kc c j] .
  have "0.0599998 * d + 0.8799994 * w \<le> raw_time d c j" "d / 181 \<le> w"
    using raw_time_window(1,5)[OF d8 j(1) jc(1) c] by (simp_all only: w_def)
  then have pos: "0 < raw_time d c j"
    using d by (simp add: add_divide_distrib diff_divide_distrib)
  have "planned_time d c j = raw_time d c j"
    unfolding planned_time_raw C_def[symmetric] using below pos by (simp add: max_def min_def)
  moreover have "raw_time d c j < planned_time d c k"
    unfolding planned_time_raw C_def[symmetric] using below less pos by (simp add: max_def min_def)
  ultimately show ?thesis
    by (simp add: c_def)
qed

text \<open>From 1.85 seconds on no timestamp is clamped.\<close>

lemma planned_time_unclamped:
  assumes d: "1.85 \<le> d" and k: "1 \<le> k" "k \<le> planned_count d 180"
  shows "planned_time d (planned_count d 180) k \<le> d - 0.15"
proof -
  define c where "c = planned_count d 180"
  define w where "w = d / (of_int c + 1)"
  have c: "c \<le> 180"
    using planned_count_range[of d] by (simp add: c_def)
  have kc: "k \<le> c" using k by (simp add: c_def)
  have d8: "1 / 8 \<le> d"
    using d by simp
  have up: "raw_time d c k \<le> 0.0600002 * d + 0.8800006 * (d - w)"
    using raw_time_window(2)[OF d8 k(1) kc c] by (simp only: w_def)
  have w: "d / 181 \<le> w"
    using raw_time_window(5)[OF d8 k(1) kc c] by (simp only: w_def)
  have "raw_time d c k \<le> d - 0.15"
  proof (cases "d \<le> 14")
    case True
    then have "c = 40"
      unfolding c_def by (rule planned_count_short)
    then have "w = d / 41"
      by (simp add: w_def)
    with up d show ?thesis
      by (simp add: add_divide_distrib diff_divide_distrib)
  next
    case False
    with up w show ?thesis
      by (simp add: add_divide_distrib diff_divide_distrib)
  qed
  then show ?thesis
    unfolding planned_time_raw c_def[symmetric] using d by (simp add: max_def min_def)
qed

lemma makeCandidateTimes_member:
  assumes "t \<in> set (makeCandidateTimes d m)"
  obtains k where "1 \<le> k" "k \<le> planned_count d m" "t = planned_time d (planned_count d m) k"
  using assms by (auto simp: makeCandidateTimes_map)

text \<open>The runs on a quarter and on an eighth of a second.\<close>

lemma clamp_quarter: "fsub (1 / 4) (rd 0.15) = 3602879701896397 / 2 ^ 55"
proof -
  have "rd (of_int 3602879701896397 * 2 powi (- 55)) = of_int 3602879701896397 * 2 powi (- 55)"
    by (rule rd_repr) simp_all
  moreover have "1 / 4 - rd 0.15 = of_int 3602879701896397 * 2 powi (- 55)"
    by (simp add: rd_lit power_int_minus)
  ultimately show ?thesis
    by (simp only: fsub_def) (simp add: power_int_minus)
qed

lemma times_quarter:
  assumes "39 \<le> k" "k \<le> 40"
  shows "planned_time (1 / 4) 40 k = 3602879701896397 / 2 ^ 55"
proof -
  have k: "1 \<le> (39::int)" "(39::int) \<le> 40" "(40::int) \<le> 180" and d: "(1::real) / 8 \<le> 1 / 4"
    by simp_all
  have "0.0599998 * (1 / 4) + 0.8799994 * (1 / 4 / (of_int 40 + 1) * of_int 39)
      \<le> raw_time (1 / 4) 40 39"
    using d k by (rule raw_time_encl(1))
  moreover have "raw_time (1 / 4) 40 39 \<le> raw_time (1 / 4) 40 k"
    using assms(1) by (intro raw_time_mono) simp_all
  ultimately have "3602879701896397 / 2 ^ 55 \<le> raw_time (1 / 4) 40 k"
    by simp
  then show ?thesis
    unfolding planned_time_raw clamp_quarter by (simp add: max_def min_def)
qed

lemma times_eighth: "planned_time (1 / 8) c k = 0"
proof -
  have "fsub (1 / 8) (rd 0.15) \<le> 0"
    by (rule clamp_nonpos) simp
  then show ?thesis
    unfolding planned_time_raw by (simp add: max_def min_def)
qed

text \<open>
  Claim C2 as stated fails for short videos. For a duration of a quarter of a second the
  last timestamps are all clamped to the binary64 difference \<open>0.25 - 0.15\<close>, the
  Number \<open>0.1\<close>: the sequence is not strictly ascending, and that Number is larger
  than \<open>0.25 - 0.15\<close>. For a duration of an eighth of a second every timestamp is
  0, below \<open>duration * 0.06\<close>.
\<close>

theorem makeCandidateTimes_short_video:
  "length (makeCandidateTimes (1 / 4) 180) = 40 \<and>
   makeCandidateTimes (1 / 4) 180 ! 38 = 3602879701896397 / 2 ^ 55 \<and>
   makeCandidateTimes (1 / 4) 180 ! 39 = 3602879701896397 / 2 ^ 55 \<and>
   \<not> (3602879701896397 / 2 ^ 55 :: real) \<le> 1 / 4 - 0.15 \<and>
   length (makeCandidateTimes (1 / 8) 180) = 40 \<and>
   makeCandidateTimes (1 / 8) 180 ! 0 = 0 \<and>
   \<not> (1 / 8 :: real) * 0.06 \<le> 0"
proof -
  have c4: "planned_count (1 / 4) 180 = 40" and c8: "planned_count (1 / 8) 180 = 40"
    by (rule planned_count_short, simp)+
  have "makeCandidateTimes (1 / 4) 180 ! 38 = planned_time (1 / 4) 40 39"
    "makeCandidateTimes (1 / 4) 180 ! 39 = planned_time (1 / 4) 40 40"
    using nth_makeCandidateTimes[of 38 "1 / 4" 180] nth_makeCandidateTimes[of 39 "1 / 4" 180]
    by (simp_all add: c4)
  then have q: "makeCandidateTimes (1 / 4) 180 ! 38 = 3602879701896397 / 2 ^ 55"
    "makeCandidateTimes (1 / 4) 180 ! 39 = 3602879701896397 / 2 ^ 55"
    using times_quarter[of 39] times_quarter[of 40] by simp_all
  have e: "makeCandidateTimes (1 / 8) 180 ! 0 = 0"
    using nth_makeCandidateTimes[of 0 "1 / 8" 180] by (simp add: c8 times_eighth)
  have l: "length (makeCandidateTimes (1 / 4) 180) = 40" "length (makeCandidateTimes (1 / 8) 180) = 40"
    by (simp_all add: length_makeCandidateTimes c4 c8)
  have n: "\<not> (3602879701896397 / 2 ^ 55 :: real) \<le> 1 / 4 - 0.15" "\<not> (1 / 8 :: real) * 0.06 \<le> 0"
    by simp_all
  from q e l n show ?thesis
    by (simp only:) simp
qed

text \<open>
  Claim C2, amended. For every duration \<open>d > 0\<close> the timestamps satisfy
  \<open>0 \<le> t \<le> d * 0.94\<close>, none exceeds the clamp (the binary64 difference
  \<open>d - 0.15\<close>, or 0 if that is negative), and they are in non-decreasing order. From
  \<open>d = 15/94\<close> on they also satisfy \<open>d * 0.06 \<le> t\<close> and
  \<open>t \<le> (d - 0.15) * (1 + 2^-50)\<close>. From \<open>d = 1.46\<close> on they are strictly
  ascending, and from \<open>d = 1.85\<close> on \<open>t \<le> d - 0.15\<close>.
\<close>

theorem makeCandidateTimes_bounds:
  "0 < d \<Longrightarrow>
     (\<forall>t \<in> set (makeCandidateTimes d 180).
         0 \<le> t \<and> t \<le> d * 0.94 \<and> t \<le> max 0 (fsub d (rd 0.15))) \<and>
     sorted (makeCandidateTimes d 180) \<and>
     (15 / 94 \<le> d \<longrightarrow>
        (\<forall>t \<in> set (makeCandidateTimes d 180).
            d * 0.06 \<le> t \<and> t \<le> fsub d (rd 0.15) \<and> t \<le> (d - 0.15) * (1 + 1 / 2 ^ 50))) \<and>
     (1.46 \<le> d \<longrightarrow> sorted_wrt (<) (makeCandidateTimes d 180)) \<and>
     (1.85 \<le> d \<longrightarrow> (\<forall>t \<in> set (makeCandidateTimes d 180). t \<le> d - 0.15))"
proof (intro conjI impI ballI)
  define c where "c = planned_count d 180"
  have c: "c \<le> 180" "0 \<le> c"
    using planned_count_range[of d] by (simp_all add: c_def)
  {
    fix t assume d: "0 < d" and t: "t \<in> set (makeCandidateTimes d 180)"
    from t obtain k where k: "1 \<le> k" "k \<le> c" and tk: "t = planned_time d c k"
      unfolding c_def by (rule makeCandidateTimes_member)
    show "0 \<le> t"
      unfolding tk planned_time_raw by simp
    show "t \<le> d * 0.94"
      unfolding tk using d k c(1) by (rule planned_time_upper)
    show "t \<le> max 0 (fsub d (rd 0.15))"
      unfolding tk by (rule planned_time_clamp)
  }
  {
    have "sorted_wrt (\<lambda>j k. planned_time d c j \<le> planned_time d c k) [1..c]"
      by (rule sorted_wrt_mono_rel[OF _ sorted_upto]) (simp add: planned_time_mono[OF c(2)])
    then show "sorted (makeCandidateTimes d 180)"
      by (simp add: makeCandidateTimes_map sorted_wrt_map c_def)
  }
  {
    fix t assume d: "15 / 94 \<le> d" and t: "t \<in> set (makeCandidateTimes d 180)"
    from t obtain k where k: "1 \<le> k" "k \<le> c" and tk: "t = planned_time d c k"
      unfolding c_def by (rule makeCandidateTimes_member)
    show "d * 0.06 \<le> t"
      unfolding tk using d k c(1) by (rule planned_time_lower)
    show le: "t \<le> fsub d (rd 0.15)"
      using planned_time_clamp[of d c k] clamp_window(3)[OF d] by (simp add: tk)
    show "t \<le> (d - 0.15) * (1 + 1 / 2 ^ 50)"
      using le clamp_window(2)[OF d] by (rule order_trans)
  }
  {
    assume d: "1.46 \<le> d"
    have "sorted_wrt (\<lambda>j k. planned_time d c j < planned_time d c k) [1..c]"
      unfolding c_def
      by (rule sorted_wrt_mono_rel[OF _ sorted_wrt_upto]) (simp add: planned_time_strict[OF d])
    then show "sorted_wrt (<) (makeCandidateTimes d 180)"
      by (simp add: makeCandidateTimes_map sorted_wrt_map c_def)
  }
  {
    fix t assume d: "1.85 \<le> d" and t: "t \<in> set (makeCandidateTimes d 180)"
    from t obtain k where k: "1 \<le> k" "k \<le> planned_count d 180"
      and tk: "t = planned_time d (planned_count d 180) k"
      by (rule makeCandidateTimes_member)
    show "t \<le> d - 0.15"
      unfolding tk using d k by (rule planned_time_unclamped)
  }
qed

text \<open>The first timestamp for a duration of 10 seconds.\<close>

theorem makeCandidateTimes_bounds_witness:
  "(0::real) < 10 \<and> (15 / 94 :: real) \<le> 10 \<and> (1.46::real) \<le> 10 \<and> (1.85::real) \<le> 10 \<and>
   makeCandidateTimes 10 180 ! 0 \<in> set (makeCandidateTimes 10 180) \<and>
   10 * 0.06 \<le> makeCandidateTimes 10 180 ! 0 \<and>
   makeCandidateTimes 10 180 ! 0 \<le> 10 * 0.94 \<and>
   makeCandidateTimes 10 180 ! 0 \<le> 10 - 0.15 \<and>
   sorted_wrt (<) (makeCandidateTimes 10 180)"
proof -
  have h: "(0::real) < 10" by simp
  have "0 < length (makeCandidateTimes 10 180)"
    by (simp add: len10)
  then have m: "makeCandidateTimes 10 180 ! 0 \<in> set (makeCandidateTimes 10 180)"
    by (rule nth_mem)
  from makeCandidateTimes_bounds[OF h] m show ?thesis
    by simp
qed


subsection \<open>The planner on durations that are not positive or not finite\<close>

lemma candidate_loop_num_finite:
  "candidate_loop_num d st sp (Num c) i tms = Some (tms @ map (pushed_num d st sp) [i..\<lfloor>c\<rfloor>])"
proof (induction "nat (\<lfloor>c\<rfloor> + 1 - i)" arbitrary: i tms)
  case 0
  then have "\<not> i \<le> \<lfloor>c\<rfloor>"
    by linarith
  then have "\<not> of_int i \<le> c"
    by (simp add: le_floor_iff)
  moreover from 0 have "[i..\<lfloor>c\<rfloor>] = []"
    by simp
  ultimately show ?case
    by (subst candidate_loop_num.simps) simp
next
  case (Suc n)
  then have le: "i \<le> \<lfloor>c\<rfloor>"
    by linarith
  then have "of_int i \<le> c"
    by (simp add: le_floor_iff)
  moreover have "[i..\<lfloor>c\<rfloor>] = i # [i + 1..\<lfloor>c\<rfloor>]"
    using le by (simp add: upto_rec1)
  moreover have "n = nat (\<lfloor>c\<rfloor> + 1 - (i + 1))"
    using Suc(2) by linarith
  ultimately show ?case
    using Suc(1)[of "i + 1"]
    by (subst candidate_loop_num.simps) (simp add: Let_def pushed_num_def)
qed

lemma candidate_loop_num_stop:
  "\<not> jle (Num (of_int i)) c \<Longrightarrow> candidate_loop_num d st sp c i tms = Some tms"
  by (subst candidate_loop_num.simps) simp

lemma rd_lit_pos: "0 < rd 0.06" "0 < rd 0.94" "0 < rd 0.35" "0 < rd 0.15"
  by (simp_all add: rd_lit)

lemma makeCandidateTimes_num_NaN: "makeCandidateTimes_num NaN m = Some []"
  by (simp add: makeCandidateTimes_num_def candidate_loop_num_stop)

lemma makeCandidateTimes_num_PInf:
  "makeCandidateTimes_num PInf m = Some (replicate (nat m) NaN)"
proof -
  have "pushed_num PInf PInf NaN = (\<lambda>k. NaN)"
    by (simp add: fun_eq_iff pushed_num_def jsub_def)
  then have "map (pushed_num PInf PInf NaN) [1..m] = replicate (nat m) NaN"
    by (simp add: map_replicate_const)
  then show ?thesis
    using rd_lit_pos
    by (simp add: makeCandidateTimes_num_def signed_inf_def jsub_def candidate_loop_num_finite)
qed

lemma makeCandidateTimes_num_NInf:
  "makeCandidateTimes_num NInf m = Some (replicate (nat (min m 40)) NaN)"
proof -
  have "pushed_num NInf NInf NaN = (\<lambda>k. NaN)"
    by (simp add: fun_eq_iff pushed_num_def jsub_def)
  then have "map (pushed_num NInf NInf NaN) [1..min m 40] = replicate (nat (min m 40)) NaN"
    by (simp add: map_replicate_const)
  moreover have "jmin (Num (of_int m)) (Num 40) = Num (of_int (min m 40))"
    by (simp add: min_def)
  ultimately show ?thesis
    using rd_lit_pos
    by (simp add: makeCandidateTimes_num_def signed_inf_def jsub_def candidate_loop_num_finite
        del: jmin.simps)
qed

lemma jsub_Num: "jsub (Num a) (Num b) = Num (fsub a b)"
  by (simp add: jsub_def fadd_def fsub_def)

lemma makeCandidateTimes_num_finite:
  "makeCandidateTimes_num (Num d) m = Some (map Num (makeCandidateTimes d m))"
proof -
  define c where "c = planned_count d m"
  define a where "a = fmul d (rd 0.06)"
  define s where "s = max 0 (fsub (fmul d (rd 0.94)) a)"
  define h where "h = fdiv s (fadd (of_int c) 1)"
  define sp where "sp = jdiv (Num s) (Num (fadd (of_int c) 1))"
  have nz: "rd 0.35 \<noteq> 0"
    using rd_lit_pos(3) by simp
  have cnt: "jmin (Num (of_int m)) (jmax (Num 40) (jfloor (jdiv (Num d) (Num (rd 0.35))))) =
      Num (of_int c)"
    using nz by (simp add: c_def planned_count_def min_def max_def)
  have span: "jmax (Num 0) (jsub (jmul (Num d) (Num (rd 0.94))) (jmul (Num d) (Num (rd 0.06)))) =
      Num s"
    by (simp add: s_def a_def jsub_Num max_def)
  have step: "pushed_num (Num d) (Num a) sp k = Num (planned_time d c k)"
    if "k \<in> set [1..c]" for k
  proof -
    from that have "1 \<le> c"
      by simp
    then have "(1::real) \<le> of_int c + 1"
      by simp
    then have "rd 1 \<le> rd (of_int c + 1)"
      by (rule rd_mono)
    then have "fadd (of_int c) 1 \<noteq> 0"
      by (simp add: fadd_def)
    then have "sp = Num h"
      by (simp add: sp_def h_def)
    then show ?thesis
      by (simp add: pushed_num_def planned_time_def jsub_Num s_def a_def h_def max_def min_def)
  qed
  have "makeCandidateTimes_num (Num d) m = Some (map (pushed_num (Num d) (Num a) sp) [1..c])"
    unfolding makeCandidateTimes_num_def Let_def cnt span
    by (simp add: candidate_loop_num_finite sp_def a_def)
  also have "map (pushed_num (Num d) (Num a) sp) [1..c] =
      map (\<lambda>k. Num (planned_time d c k)) [1..c]"
    by (rule map_cong[OF refl step])
  also have "\<dots> = map Num (map (planned_time d c) [1..c])"
    by simp
  finally show ?thesis
    by (simp add: c_def makeCandidateTimes_map)
qed

lemma makeCandidateTimes_nonpositive:
  assumes "d \<le> 0"
  shows "makeCandidateTimes d m = replicate (nat (min m 40)) 0"
proof -
  have "d / rd 0.35 \<le> 0"
    using assms rd_lit_pos(3) by (simp add: divide_nonpos_pos)
  then have "rd (d / rd 0.35) \<le> 0"
    by (rule rd_nonpos)
  then have "\<lfloor>fdiv d (rd 0.35)\<rfloor> \<le> 0"
    unfolding fdiv_def by linarith
  then have c: "planned_count d m = min m 40"
    unfolding planned_count_def by linarith
  have "planned_time d c k = 0" for c k
  proof -
    define a where "a = fmul d (rd 0.06)"
    define b where "b = fmul d (rd 0.94)"
    have "d * rd 0.06 \<le> 0"
      using assms rd_lit_pos(1) by (simp add: mult_nonpos_nonneg)
    then have a: "a \<le> 0"
      unfolding a_def fmul_def by (rule rd_nonpos)
    have "d * rd 0.94 \<le> d * rd 0.06"
      using assms by (intro mult_left_mono_neg) (simp_all add: rd_lit)
    then have "b \<le> a"
      unfolding a_def b_def fmul_def by (rule rd_mono)
    then have "fsub b a \<le> 0"
      unfolding fsub_def by (intro rd_nonpos) simp
    then have s: "max 0 (fsub b a) = 0"
      by simp
    have "fadd a (fmul (fdiv 0 (fadd (of_int c) 1)) (of_int k)) = a"
      by (simp add: fadd_def fmul_def fdiv_def a_def)
    then have "planned_time d c k = max 0 (min (fsub d (rd 0.15)) a)"
      unfolding planned_time_def a_def[symmetric] b_def[symmetric] s by simp
    also have "\<dots> = 0"
      using a by simp
    finally show ?thesis .
  qed
  then have "planned_time d (min m 40) = (\<lambda>k. 0)"
    by (simp add: fun_eq_iff)
  then show ?thesis
    by (simp add: makeCandidateTimes_map c map_replicate_const)
qed

text \<open>
  Claim C6 as stated fails: the planner does not test its argument. For the duration 0
  it returns 40 timestamps, all 0.
\<close>

theorem makeCandidateTimes_zero_duration:
  "makeCandidateTimes_num (Num 0) 180 = Some (replicate 40 (Num 0)) \<and>
   makeCandidateTimes 0 180 = replicate 40 0"
  using makeCandidateTimes_nonpositive[of 0 180] by (simp add: makeCandidateTimes_num_finite)

text \<open>
  Claim C6, amended. The planner never fails and always returns. For \<open>NaN\<close> it
  returns the empty sequence; for every finite duration \<open>x \<le> 0\<close> it returns
  \<open>min(maxCandidates, 40)\<close> timestamps, all 0; for \<open>+Infinity\<close> it returns
  \<open>maxCandidates\<close> timestamps and for \<open>-Infinity\<close> \<open>min(maxCandidates, 40)\<close>
  timestamps, all \<open>NaN\<close>.
\<close>

theorem makeCandidateTimes_num_invalid:
  "(\<exists>tms. makeCandidateTimes_num d m = Some tms) \<and>
   makeCandidateTimes_num NaN m = Some [] \<and>
   (\<forall>x\<le>0. makeCandidateTimes_num (Num x) m = Some (replicate (nat (min m 40)) (Num 0))) \<and>
   makeCandidateTimes_num PInf m = Some (replicate (nat m) NaN) \<and>
   makeCandidateTimes_num NInf m = Some (replicate (nat (min m 40)) NaN)"
proof -
  have "\<exists>tms. makeCandidateTimes_num d m = Some tms"
    by (cases d)
      (simp_all add: makeCandidateTimes_num_NaN makeCandidateTimes_num_PInf
        makeCandidateTimes_num_NInf makeCandidateTimes_num_finite)
  then show ?thesis
    by (simp add: makeCandidateTimes_num_NaN makeCandidateTimes_num_PInf
        makeCandidateTimes_num_NInf makeCandidateTimes_num_finite makeCandidateTimes_nonpositive)
qed

text \<open>The duration \<open>-5\<close> with the default \<open>maxCandidates\<close>.\<close>

theorem makeCandidateTimes_num_invalid_witness:
  "(- 5 :: real) \<le> 0 \<and> makeCandidateTimes_num (Num (- 5)) 180 = Some (replicate 40 (Num 0))"
  using makeCandidateTimes_num_invalid[of NaN 180] by simp


subsection \<open>The frame scorer\<close>

lemma round_overflow_nonneg: "0 \<le> x \<Longrightarrow> nonneg_num (round_overflow x)"
  by (simp add: round_overflow_def nonneg_num_def rd_nonneg)

lemma unsigned_decimal_nonneg: "unsigned_decimal s = Some v \<Longrightarrow> 0 \<le> v"
  by (auto simp: unsigned_decimal_def Let_def split: if_splits option.splits)

lemma str_decimal_nonneg:
  assumes "CHR ''-'' \<notin> set s"
  shows "nonneg_num (str_decimal s)"
proof -
  have neg: "\<not> (s \<noteq> [] \<and> hd s = CHR ''-'')"
    using assms by (cases s) auto
  show ?thesis
    unfolding str_decimal_def Let_def using neg
    by (auto simp: nonneg_num_def round_overflow_nonneg[unfolded nonneg_num_def]
        dest: unsigned_decimal_nonneg split: option.splits)
qed

lemma non_decimal_nonneg:
  assumes "non_decimal s = Some v"
  shows "nonneg_num v"
proof -
  from assms obtain base r
    where "v = (case number_in base r of None \<Rightarrow> NaN | Some n \<Rightarrow> round_overflow (real n))"
    by (auto simp: non_decimal_def Let_def split: list.splits if_splits)
  then show ?thesis
    by (cases "number_in base r") (simp_all add: nonneg_num_def[of NaN] round_overflow_nonneg)
qed

lemma set_trim: "set (trim s) \<subseteq> set s"
proof -
  have "set (trim s) \<subseteq> set (rev (dropWhile is_ws s))"
    unfolding trim_def set_rev by (auto dest: set_dropWhileD)
  also have "\<dots> \<subseteq> set s"
    by (auto dest: set_dropWhileD)
  finally show ?thesis .
qed

lemma js_Number_nonneg:
  assumes "CHR ''-'' \<notin> set s"
  shows "nonneg_num (js_Number s)"
proof -
  have "CHR ''-'' \<notin> set (trim s)"
    using assms set_trim by blast
  then show ?thesis
    unfolding js_Number_def Let_def
    by (auto simp: nonneg_num_def[of "Num 0"] intro: str_decimal_nonneg non_decimal_nonneg
        split: option.splits)
qed

lemma match_here_value:
  assumes "match_here s = Some (key, v, rest)"
  shows "CHR ''-'' \<notin> set v"
proof -
  from assms obtain r where "v = takeWhile is_numch r"
    by (auto simp: match_here_def Let_def split: if_splits)
  then have "\<forall>c \<in> set v. is_numch c"
    by (auto dest: set_takeWhileD)
  moreover have "\<not> is_numch CHR ''-''"
    by (simp add: is_numch_def is_digit_def)
  ultimately show ?thesis by blast
qed

lemma signalstats_loop_nonneg:
  "\<forall>k v. out k = Some v \<longrightarrow> nonneg_num v \<Longrightarrow>
   \<forall>k v. signalstats_loop s out k = Some v \<longrightarrow> nonneg_num v"
proof (induction s out rule: signalstats_loop.induct)
  case (1 out)
  then show ?case by simp
next
  case (2 c cs out)
  show ?case
  proof (cases "match_here (c # cs)")
    case None
    with 2 show ?thesis by simp
  next
    case (Some m)
    obtain key val rest where m: "m = (key, val, rest)"
      by (cases m) auto
    have "nonneg_num (js_Number val)"
      using match_here_value[OF Some[unfolded m]] by (rule js_Number_nonneg)
    with 2(3) have inv: "\<forall>k v. (out(key \<mapsto> js_Number val)) k = Some v \<longrightarrow> nonneg_num v"
      by simp
    have "\<forall>k v. signalstats_loop rest (out(key \<mapsto> js_Number val)) k = Some v \<longrightarrow> nonneg_num v"
      using Some m inv by (intro 2(2)) simp_all
    then show ?thesis
      by (simp add: Some m)
  qed
qed

lemma parseSignalstats_nonneg: "parseSignalstats s k = Some v \<Longrightarrow> nonneg_num v"
  using signalstats_loop_nonneg[of Map.empty s] by (simp add: parseSignalstats_def)

lemma finite_or_nonneg:
  assumes "\<And>v. x = Some v \<Longrightarrow> nonneg_num v" and "0 \<le> d"
  shows "0 \<le> finite_or x d"
  using assms by (auto simp: finite_or_def nonneg_num_def split: option.splits jsnum.splits)

lemma spec_score_range:
  assumes "0 \<le> S" "0 \<le> E"
  shows "0 \<le> spec_score Y S E" "spec_score Y S E \<le> 1"
proof -
  define ex where "ex = 1 - min 1 (\<bar>Y - 128\<bar> / 128)"
  define co where "co = min 1 (S / 64)"
  define sh where "sh = min 1 (E / 40)"
  have "0 \<le> \<bar>Y - 128\<bar> / 128" by simp
  then have ex: "0 \<le> ex" "ex \<le> 1"
    unfolding ex_def by (simp_all add: min_def)
  have co: "0 \<le> co" "co \<le> 1"
    unfolding co_def using assms(1) by simp_all
  have sh: "0 \<le> sh" "sh \<le> 1"
    unfolding sh_def using assms(2) by simp_all
  have eq: "spec_score Y S E = 0.45 * ex + 0.30 * co + 0.25 * sh"
    by (simp only: spec_score_def ex_def co_def sh_def)
  show "0 \<le> spec_score Y S E"
    unfolding eq using ex co sh by simp
  show "spec_score Y S E \<le> 1"
    unfolding eq using ex co sh by simp
qed

lemma weights_commute:
  "(a::real) * 0.45 + b * 0.30 + c * 0.25 = 0.45 * a + 0.30 * b + 0.25 * c"
  by (simp only: mult.commute)

lemma scoreFrameJpg_ok:
  "scoreFrameJpg (Inr out) edge_run =
     Inr (spec_score (finite_or (parseSignalstats (stderr out) ''YAVG'') 128)
            (finite_or (parseSignalstats (stderr out) ''YSTD'') 0)
            (finite_or (edge_stats_of edge_run ''YAVG'') 0))"
  by (simp only: scoreFrameJpg_def Let_def spec_score_def edge_stats_of_def sum.case
      weights_commute)

lemma scoreFrameJpg_base_failed: "scoreFrameJpg (Inl e) edge_run = Inr 0"
  by (simp add: scoreFrameJpg_def)

lemma edge_stats_of_nonneg: "edge_stats_of edge_run k = Some v \<Longrightarrow> nonneg_num v"
  by (cases edge_run) (auto simp: edge_stats_of_def dest: parseSignalstats_nonneg)

lemma scoreFrameJpg_range:
  "\<exists>s. scoreFrameJpg base_run edge_run = Inr s \<and> 0 \<le> s \<and> s \<le> 1"
proof (cases base_run)
  case (Inl e)
  then show ?thesis by (simp add: scoreFrameJpg_base_failed)
next
  case (Inr out)
  have S: "0 \<le> finite_or (parseSignalstats (stderr out) ''YSTD'') 0"
    by (rule finite_or_nonneg) (auto dest: parseSignalstats_nonneg)
  have E: "0 \<le> finite_or (edge_stats_of edge_run ''YAVG'') 0"
    by (rule finite_or_nonneg) (auto dest: edge_stats_of_nonneg)
  show ?thesis
    unfolding Inr scoreFrameJpg_ok using spec_score_range[OF S E] by simp
qed




lemma round_overflow_small: "\<bar>x\<bar> \<le> 2 ^ 64 \<Longrightarrow> round_overflow x = Num (rd x)"
proof -
  assume x: "\<bar>x\<bar> \<le> 2 ^ 64"
  have "(2::real) ^ 64 < 2 ^ 1024 - 2 ^ 970"
    by simp
  with x show ?thesis
    unfolding round_overflow_def by (simp add: abs_le_iff)
qed

lemma js_Number_decimal:
  assumes "trim s = t" "t \<noteq> []" "non_decimal t = None" "hd t \<noteq> CHR ''+''" "hd t \<noteq> CHR ''-''"
    "t \<noteq> ''Infinity''" "unsigned_decimal t = Some v" "\<bar>v\<bar> \<le> 2 ^ 64"
  shows "js_Number s = Num (rd v)"
  using assms by (simp add: js_Number_def str_decimal_def round_overflow_small)













subsection \<open>The selection\<close>

lemma fsub_self [simp]: "fsub a a = 0"
  by (simp add: fsub_def)

lemma abs_fsub_commute: "\<bar>fsub a b\<bar> = \<bar>fsub b a\<bar>"
proof -
  have "fsub a b = - fsub b a"
    unfolding fsub_def using rd_minus[of "b - a"] by simp
  then show ?thesis by simp
qed

lemma pickTop5_all_picks: "pickTop5 d xs = sort_key ts (all_picks d xs)"
  by (simp add: pickTop5_def all_picks_def first_pass_def Let_def)

lemma greedy_pass_extends:
  "\<exists>ex. greedy_pass g items ps = ps @ ex \<and> set ex \<subseteq> set items"
proof (induction items arbitrary: ps)
  case Nil
  then show ?case by simp
next
  case (Cons item rest)
  from Cons[of ps] Cons[of "ps @ [item]"] show ?case
    by (auto split: if_splits)
qed

lemma greedy_pass_subset: "set (greedy_pass g items ps) \<subseteq> set ps \<union> set items"
  using greedy_pass_extends[of g items ps] by auto

lemma greedy_pass_keeps: "set ps \<subseteq> set (greedy_pass g items ps)"
  using greedy_pass_extends[of g items ps] by auto

lemma greedy_pass_sep:
  "sorted_wrt (sep g) ps \<Longrightarrow> sorted_wrt (sep g) (greedy_pass g items ps)"
proof (induction items arbitrary: ps)
  case Nil
  then show ?case by simp
next
  case (Cons item rest)
  show ?case
  proof (cases "5 \<le> length ps")
    case True
    with Cons.prems show ?thesis by simp
  next
    case False
    show ?thesis
    proof (cases "list_all (\<lambda>p. g \<le> \<bar>fsub (ts p) (ts item)\<bar>) ps")
      case True
      then have "\<forall>p \<in> set ps. sep g p item"
        by (simp add: list_all_iff sep_def)
      then have "sorted_wrt (sep g) (ps @ [item])"
        using Cons.prems by (simp add: sorted_wrt_append)
      then have "sorted_wrt (sep g) (greedy_pass g rest (ps @ [item]))"
        by (rule Cons.IH)
      with False True show ?thesis by simp
    next
      case no: False
      with False Cons.IH[OF Cons.prems] show ?thesis by simp
    qed
  qed
qed

lemma sep_weaken: "g' \<le> g \<Longrightarrow> sorted_wrt (sep g) xs \<Longrightarrow> sorted_wrt (sep g') xs"
  by (erule sorted_wrt_mono_rel[rotated]) (simp add: sep_def)

lemma sep_pairwise:
  assumes "0 < g"
  shows "sorted_wrt (sep g) xs \<longleftrightarrow>
     distinct xs \<and> (\<forall>a \<in> set xs. \<forall>b \<in> set xs. a \<noteq> b \<longrightarrow> sep g a b)"
proof (induction xs)
  case Nil
  then show ?case by simp
next
  case (Cons x xs)
  have irrefl: "\<not> sep g a a" for a
    using assms by (simp add: sep_def)
  have sym: "sep g a b \<longleftrightarrow> sep g b a" for a b
    by (simp add: sep_def abs_fsub_commute)
  show ?case
    unfolding sorted_wrt.simps Cons.IH distinct.simps
    using irrefl sym by auto
qed

lemma sep_perm:
  assumes "0 < g" "sorted_wrt (sep g) xs" "mset ys = mset xs"
  shows "sorted_wrt (sep g) ys"
proof -
  have "distinct ys \<longleftrightarrow> distinct xs"
    using assms(3) by (metis mset_eq_imp_distinct_iff)
  moreover have "set ys = set xs"
    using assms(3) by (rule mset_eq_setD)
  ultimately show ?thesis
    using assms(2) unfolding sep_pairwise[OF assms(1)] by simp
qed

lemma minGap_of_ge: "rd 1.2 \<le> minGap_of d" "1 < minGap_of d" "1 \<le> minGap_of d" "0 < minGap_of d"
proof -
  show "rd 1.2 \<le> minGap_of d"
    by (simp add: minGap_of_def)
  moreover have "1 < rd 1.2"
    by (simp add: rd_lit)
  ultimately show "1 < minGap_of d" "1 \<le> minGap_of d" "0 < minGap_of d"
    by linarith+
qed

lemma first_pass_sep: "sorted_wrt (sep (minGap_of d)) (first_pass d xs)"
  unfolding first_pass_def by (rule greedy_pass_sep) simp

lemma all_picks_sep: "sorted_wrt (sep 1) (all_picks d xs)"
proof -
  have fp: "sorted_wrt (sep 1) (first_pass d xs)"
    using minGap_of_ge(3) first_pass_sep by (rule sep_weaken)
  then have "sorted_wrt (sep 1) (greedy_pass 1 (sort_by_score_desc xs) (first_pass d xs))"
    by (rule greedy_pass_sep)
  with fp show ?thesis
    by (simp add: all_picks_def)
qed

lemma pickTop5_sep: "sorted_wrt (sep 1) (pickTop5 d xs)"
  unfolding pickTop5_all_picks
  by (rule sep_perm[OF _ all_picks_sep]) simp_all

lemma all_picks_first_only:
  assumes "set (all_picks d xs) \<subseteq> set (first_pass d xs)"
  shows "all_picks d xs = first_pass d xs"
proof (cases "length (first_pass d xs) < 5")
  case False
  then show ?thesis by (simp add: all_picks_def)
next
  case True
  then have ap: "all_picks d xs = greedy_pass 1 (sort_by_score_desc xs) (first_pass d xs)"
    by (simp add: all_picks_def)
  obtain ex where ex: "all_picks d xs = first_pass d xs @ ex"
    unfolding ap using greedy_pass_extends by blast
  have "distinct (first_pass d xs @ ex)"
    using all_picks_sep[of d xs] unfolding ex by (simp add: sep_pairwise)
  then have "set ex \<inter> set (first_pass d xs) = {}"
    by auto
  moreover have "set ex \<subseteq> set (first_pass d xs)"
    using assms unfolding ex by simp
  ultimately have "ex = []"
    by (cases ex) auto
  with ex show ?thesis by simp
qed

lemma pickTop5_minGap:
  assumes "set (pickTop5 d xs) \<subseteq> set (first_pass d xs)"
  shows "sorted_wrt (sep (minGap_of d)) (pickTop5 d xs)"
proof -
  from assms have "set (all_picks d xs) \<subseteq> set (first_pass d xs)"
    by (simp add: pickTop5_all_picks)
  then have "all_picks d xs = first_pass d xs"
    by (rule all_picks_first_only)
  then have "sorted_wrt (sep (minGap_of d)) (all_picks d xs)"
    using first_pass_sep by simp
  then show ?thesis
    unfolding pickTop5_all_picks
    by (rule sep_perm[OF minGap_of_ge(4)]) simp
qed

lemma sep_distinct_ts:
  assumes "0 < g" "sorted_wrt (sep g) xs"
  shows "distinct (map ts xs)"
proof -
  have "sorted_wrt (\<lambda>a b. ts a \<noteq> ts b) xs"
    using assms(2) by (rule sorted_wrt_mono_rel[rotated]) (use assms(1) in \<open>auto simp: sep_def\<close>)
  then show ?thesis
    by (simp add: distinct_map inj_on_def sorted_wrt_iff_nth_less distinct_conv_nth in_set_conv_nth)
      (metis nat_neq_iff)
qed

text \<open>Small runs of the selection.\<close>

lemma minGap_of_small: "d \<le> 16 \<Longrightarrow> 0 \<le> d \<Longrightarrow> minGap_of d = rd 1.2"
proof -
  assume d: "d \<le> 16" "0 \<le> d"
  have "d * rd 0.06 \<le> 1"
    using d by (simp add: rd_lit)
  then have "rd (d * rd 0.06) \<le> rd 1"
    by (rule rd_mono)
  moreover have "1 < rd 1.2"
    by (simp add: rd_lit)
  ultimately show ?thesis
    by (simp add: minGap_of_def fmul_def)
qed

lemma minGap_of_100: "minGap_of 100 \<le> 20"
proof -
  have "100 * rd 0.06 \<le> (20::real)"
    by (simp add: rd_lit)
  then have "rd (100 * rd 0.06) \<le> rd 20"
    by (rule rd_mono)
  then have "fmul 100 (rd 0.06) \<le> 20"
    by (simp add: fmul_def rd_numeral)
  moreover have "rd 1.2 \<le> 20"
    by (simp add: rd_lit)
  ultimately show ?thesis
    by (simp add: minGap_of_def)
qed

lemma fsub_10_30: "fsub 10 30 = - 20"
proof -
  have "fsub 10 30 = rd (- 20)"
    by (simp add: fsub_def)
  also have "\<dots> = - rd 20"
    by (rule rd_minus)
  finally show ?thesis
    by (simp add: rd_numeral)
qed

lemma fsub_half: "fsub 1 (3 / 2) = - (1 / 2)"
proof -
  have "rd (of_int 1 * 2 powi (- 1)) = of_int 1 * 2 powi (- 1)"
    by (rule rd_repr) simp_all
  then have h: "rd (1 / 2) = 1 / 2"
    by (simp add: power_int_minus)
  have "fsub 1 (3 / 2) = rd (- (1 / 2))"
    by (simp add: fsub_def)
  also have "\<dots> = - rd (1 / 2)"
    by (rule rd_minus)
  finally show ?thesis
    by (simp add: h)
qed

text \<open>\<open>1 - 2^-60\<close> rounds to 1.\<close>

lemma fsub_tiny: "fsub 1 (1 / 2 ^ 60) = 1"
proof -
  have "rd (1 - 1 / 2 ^ 60) =
      of_int (round_even ((1 - 1 / 2 ^ 60) / 2 powi (- 1 - 52))) * 2 powi (- 1 - 52)"
    by (rule rd_eval) (simp_all add: power_int_minus)
  moreover have "round_even ((1 - 1 / 2 ^ 60) / 2 powi (- 1 - 52)) = 2 ^ 53"
    by (rule round_even_eval(2)) (simp_all add: power_int_minus)
  ultimately show ?thesis
    by (simp add: fsub_def power_int_minus)
qed

lemma greedy_pass_pair:
  "greedy_pass g [a, b] [] = (if g \<le> \<bar>fsub (ts a) (ts b)\<bar> then [a, b] else [a])"
  by simp

lemma greedy_pass_again:
  assumes "0 < g"
  shows "greedy_pass g [a, b] [a, b] = [a, b]"
    and "greedy_pass g [a, b] [a] = (if g \<le> \<bar>fsub (ts a) (ts b)\<bar> then [a, b] else [a])"
  using assms by simp_all

lemma pickTop5_pair:
  assumes "score b \<le> score a"
  shows "first_pass d [a, b] = (if minGap_of d \<le> \<bar>fsub (ts a) (ts b)\<bar> then [a, b] else [a])"
    and "pickTop5 d [a, b] = sort_key ts (if 1 \<le> \<bar>fsub (ts a) (ts b)\<bar> then [a, b] else [a])"
proof -
  have s: "sort_by_score_desc [a, b] = [a, b]"
    using assms by (simp add: sort_by_score_desc_def)
  show fp: "first_pass d [a, b] = (if minGap_of d \<le> \<bar>fsub (ts a) (ts b)\<bar> then [a, b] else [a])"
    unfolding first_pass_def s by (rule greedy_pass_pair)
  have "all_picks d [a, b] = (if 1 \<le> \<bar>fsub (ts a) (ts b)\<bar> then [a, b] else [a])"
    unfolding all_picks_def fp s using minGap_of_ge(3)[of d]
    by (simp del: greedy_pass.simps add: greedy_pass_again)
  then show "pickTop5 d [a, b] = sort_key ts (if 1 \<le> \<bar>fsub (ts a) (ts b)\<bar> then [a, b] else [a])"
    by (simp only: pickTop5_all_picks)
qed

lemma eval_rich:
  "first_pass 100 [\<lparr>ts = 10, score = 1\<rparr>, \<lparr>ts = 30, score = 0\<rparr>] =
     [\<lparr>ts = 10, score = 1\<rparr>, \<lparr>ts = 30, score = 0\<rparr>]"
  "pickTop5 100 [\<lparr>ts = 10, score = 1\<rparr>, \<lparr>ts = 30, score = 0\<rparr>] =
     [\<lparr>ts = 10, score = 1\<rparr>, \<lparr>ts = 30, score = 0\<rparr>]"
  using minGap_of_100 by (simp_all add: pickTop5_pair fsub_10_30)

lemma eval_close:
  "pickTop5 10 [\<lparr>ts = 1, score = 1\<rparr>, \<lparr>ts = 3 / 2, score = 0\<rparr>] = [\<lparr>ts = 1, score = 1\<rparr>]"
  by (simp add: pickTop5_pair fsub_half)

lemma eval_tiny:
  "pickTop5 10 [\<lparr>ts = 1, score = 1\<rparr>, \<lparr>ts = 1 / 2 ^ 60, score = 0\<rparr>] =
     [\<lparr>ts = 1 / 2 ^ 60, score = 0\<rparr>, \<lparr>ts = 1, score = 1\<rparr>]"
  by (simp add: pickTop5_pair) (simp add: fsub_tiny[simplified])

lemma eval_first:
  "first_pass 10 [\<lparr>ts = 0, score = 1\<rparr>, \<lparr>ts = 5404319552844595 / 2 ^ 52, score = 0\<rparr>] =
     [\<lparr>ts = 0, score = 1\<rparr>, \<lparr>ts = 5404319552844595 / 2 ^ 52, score = 0\<rparr>]"
  "pickTop5 10 [\<lparr>ts = 0, score = 1\<rparr>, \<lparr>ts = 5404319552844595 / 2 ^ 52, score = 0\<rparr>] =
     [\<lparr>ts = 0, score = 1\<rparr>, \<lparr>ts = 5404319552844595 / 2 ^ 52, score = 0\<rparr>]"
proof -
  have "fsub 0 (rd 1.2) = - rd 1.2"
    using rd_minus[of "rd 1.2"] by (simp add: fsub_def)
  moreover have "0 \<le> rd 1.2"
    by (rule rd_nonneg) simp
  ultimately have "\<bar>fsub 0 (rd 1.2)\<bar> = rd 1.2"
    by simp
  then have f: "\<bar>fsub 0 (5404319552844595 / 2 ^ 52)\<bar> = rd 1.2"
    by (simp only: rd_12)
  have g: "minGap_of 10 = rd 1.2"
    by (rule minGap_of_small) simp_all
  have one: "1 \<le> rd 1.2"
    by (simp add: rd_lit)
  show "first_pass 10 [\<lparr>ts = 0, score = 1\<rparr>, \<lparr>ts = 5404319552844595 / 2 ^ 52, score = 0\<rparr>] =
     [\<lparr>ts = 0, score = 1\<rparr>, \<lparr>ts = 5404319552844595 / 2 ^ 52, score = 0\<rparr>]"
    using f g by (simp add: pickTop5_pair(1) del: greedy_pass.simps)
  show "pickTop5 10 [\<lparr>ts = 0, score = 1\<rparr>, \<lparr>ts = 5404319552844595 / 2 ^ 52, score = 0\<rparr>] =
     [\<lparr>ts = 0, score = 1\<rparr>, \<lparr>ts = 5404319552844595 / 2 ^ 52, score = 0\<rparr>]"
    using one f by (simp add: pickTop5_pair(2) del: greedy_pass.simps)
qed

lemma sort_by_score_desc_head:
  assumes "xs \<noteq> []"
  obtains h rest where "sort_by_score_desc xs = h # rest" "h \<in> set xs"
    "\<forall>x \<in> set xs. score x \<le> score h"
proof -
  have "length (sort_by_score_desc xs) = length xs"
    by (simp add: sort_by_score_desc_def)
  with assms have ne: "sort_by_score_desc xs \<noteq> []"
    by auto
  then obtain h rest where hr: "sort_by_score_desc xs = h # rest"
    by (cases "sort_by_score_desc xs") auto
  have set_eq: "set (sort_by_score_desc xs) = set xs"
    by (simp add: sort_by_score_desc_def)
  have "sorted (map (\<lambda>a. - score a) (sort_by_score_desc xs))"
    unfolding sort_by_score_desc_def by (rule sorted_sort_key)
  then have "\<forall>x \<in> set rest. - score h \<le> - score x"
    unfolding hr by simp
  then have "\<forall>x \<in> set xs. score x \<le> score h"
    using set_eq unfolding hr by auto
  moreover have "h \<in> set xs"
    using set_eq unfolding hr by auto
  ultimately show ?thesis
    using hr that by blast
qed

lemma first_pass_subset: "set (first_pass d xs) \<subseteq> set xs"
  unfolding first_pass_def using greedy_pass_subset[of "minGap_of d" "sort_by_score_desc xs" "[]"]
  by (simp add: sort_by_score_desc_def)

lemma all_picks_subset: "set (all_picks d xs) \<subseteq> set xs"
proof -
  have "set (greedy_pass 1 (sort_by_score_desc xs) (first_pass d xs)) \<subseteq> set xs"
    using greedy_pass_subset[of 1 "sort_by_score_desc xs" "first_pass d xs"] first_pass_subset[of d xs]
    by (auto simp: sort_by_score_desc_def)
  then show ?thesis
    using first_pass_subset[of d xs] by (simp add: all_picks_def)
qed

lemma first_pass_keeps_head:
  assumes "sort_by_score_desc xs = h # rest"
  shows "h \<in> set (first_pass d xs)"
proof -
  have "first_pass d xs = greedy_pass (minGap_of d) rest [h]"
    by (simp add: first_pass_def assms)
  then show ?thesis
    using greedy_pass_keeps[of "[h]" "minGap_of d" rest] by simp
qed

lemma first_pass_in_all_picks: "set (first_pass d xs) \<subseteq> set (all_picks d xs)"
  using greedy_pass_keeps[of "first_pass d xs" 1 "sort_by_score_desc xs"]
  by (simp add: all_picks_def)

lemma sep_nth:
  "sorted_wrt (sep g) xs \<longleftrightarrow>
     (\<forall>i j. i < j \<and> j < length xs \<longrightarrow> g \<le> \<bar>fsub (ts (xs ! i)) (ts (xs ! j))\<bar>)"
  by (auto simp: sorted_wrt_iff_nth_less sep_def)

lemma short_distinct:
  assumes "distinct ps" "set ps \<subseteq> set us" "length us < 5"
  shows "length ps < 5"
proof -
  have "length ps = card (set ps)"
    using assms(1) by (simp add: distinct_card)
  also have "\<dots> \<le> card (set us)"
    using assms(2) by (intro card_mono) simp_all
  also have "\<dots> \<le> length us"
    by (rule card_length)
  finally show ?thesis
    using assms(3) by simp
qed

lemma greedy_pass_complete:
  assumes "0 < g" "length us < 5" "\<forall>a \<in> set us. \<forall>b \<in> set us. a \<noteq> b \<longrightarrow> sep g a b"
  shows "sorted_wrt (sep g) ps \<Longrightarrow> set ps \<union> set items \<subseteq> set us \<Longrightarrow>
     set items \<subseteq> set (greedy_pass g items ps)"
proof (induction items arbitrary: ps)
  case Nil
  then show ?case by simp
next
  case (Cons item rest)
  have "distinct ps"
    using Cons.prems(1) assms(1) by (simp add: sep_pairwise)
  then have short: "\<not> 5 \<le> length ps"
    using short_distinct[of ps us] Cons.prems(2) assms(2) by simp
  show ?case
  proof (cases "list_all (\<lambda>p. g \<le> \<bar>fsub (ts p) (ts item)\<bar>) ps")
    case True
    then have "\<forall>p \<in> set ps. sep g p item"
      by (simp add: list_all_iff sep_def)
    then have "sorted_wrt (sep g) (ps @ [item])"
      using Cons.prems(1) by (simp add: sorted_wrt_append)
    moreover have "set (ps @ [item]) \<union> set rest \<subseteq> set us"
      using Cons.prems(2) by auto
    ultimately have "set rest \<subseteq> set (greedy_pass g rest (ps @ [item]))"
      by (rule Cons.IH)
    moreover have "item \<in> set (greedy_pass g rest (ps @ [item]))"
      using greedy_pass_keeps[of "ps @ [item]" g rest] by simp
    ultimately show ?thesis
      using short True by simp
  next
    case False
    then obtain p where p: "p \<in> set ps" "\<not> sep g p item"
      by (auto simp: list_all_iff sep_def)
    then have "p = item"
      using assms(3) Cons.prems(2) by auto
    then have "item \<in> set (greedy_pass g rest ps)"
      using p(1) greedy_pass_keeps[of ps g rest] by auto
    moreover have "set rest \<subseteq> set (greedy_pass g rest ps)"
      using Cons.prems by (intro Cons.IH) auto
    ultimately show ?thesis
      using short False by simp
  qed
qed

lemma pickTop5_all_of_small_pool:
  assumes "length xs < 5" "sorted_wrt (sep 1) xs"
  shows "mset (pickTop5 d xs) = mset xs"
proof -
  have pw: "distinct xs" "\<forall>a \<in> set xs. \<forall>b \<in> set xs. a \<noteq> b \<longrightarrow> sep 1 a b"
    using assms(2) by (simp_all add: sep_pairwise)
  have fp1: "sorted_wrt (sep 1) (first_pass d xs)"
    using minGap_of_ge(3) first_pass_sep by (rule sep_weaken)
  then have "distinct (first_pass d xs)"
    by (simp add: sep_pairwise)
  then have "length (first_pass d xs) < 5"
    using first_pass_subset assms(1) by (rule short_distinct)
  then have ap: "all_picks d xs = greedy_pass 1 (sort_by_score_desc xs) (first_pass d xs)"
    by (simp add: all_picks_def)
  have "set (first_pass d xs) \<union> set (sort_by_score_desc xs) \<subseteq> set xs"
    using first_pass_subset[of d xs] by (simp add: sort_by_score_desc_def)
  with fp1 have "set (sort_by_score_desc xs) \<subseteq> set (all_picks d xs)"
    unfolding ap by (intro greedy_pass_complete[OF _ assms(1) pw(2)]) simp_all
  then have "set (all_picks d xs) = set xs"
    using all_picks_subset[of d xs] by (auto simp: sort_by_score_desc_def)
  moreover have "distinct (all_picks d xs)"
    using all_picks_sep[of d xs] by (simp add: sep_pairwise)
  ultimately have "mset (all_picks d xs) = mset xs"
    using pw(1) by (simp add: set_eq_iff_mset_eq_distinct)
  then show ?thesis
    by (simp add: pickTop5_all_picks)
qed


lemma greedy_pass_maximal:
  assumes "0 < g" "length us < 5"
  shows "sorted_wrt (sep g) ps \<Longrightarrow> set ps \<union> set items \<subseteq> set us \<Longrightarrow>
     \<forall>x \<in> set items. x \<in> set (greedy_pass g items ps) \<or>
        (\<exists>p \<in> set (greedy_pass g items ps). \<not> sep g p x)"
proof (induction items arbitrary: ps)
  case Nil
  then show ?case by simp
next
  case (Cons item rest)
  have "distinct ps"
    using Cons.prems(1) assms(1) by (simp add: sep_pairwise)
  then have short: "\<not> 5 \<le> length ps"
    using short_distinct[of ps us] Cons.prems(2) assms(2) by simp
  show ?case
  proof (cases "list_all (\<lambda>p. g \<le> \<bar>fsub (ts p) (ts item)\<bar>) ps")
    case True
    then have "\<forall>p \<in> set ps. sep g p item"
      by (simp add: list_all_iff sep_def)
    then have "sorted_wrt (sep g) (ps @ [item])"
      using Cons.prems(1) by (simp add: sorted_wrt_append)
    moreover have "set (ps @ [item]) \<union> set rest \<subseteq> set us"
      using Cons.prems(2) by auto
    ultimately have "\<forall>x \<in> set rest. x \<in> set (greedy_pass g rest (ps @ [item])) \<or>
        (\<exists>p \<in> set (greedy_pass g rest (ps @ [item])). \<not> sep g p x)"
      by (rule Cons.IH)
    moreover have "item \<in> set (greedy_pass g rest (ps @ [item]))"
      using greedy_pass_keeps[of "ps @ [item]" g rest] by simp
    moreover have "greedy_pass g (item # rest) ps = greedy_pass g rest (ps @ [item])"
      using short True by simp
    ultimately show ?thesis
      by (simp del: greedy_pass.simps)
  next
    case False
    then obtain p where p: "p \<in> set ps" "\<not> sep g p item"
      by (auto simp: list_all_iff sep_def)
    then have "p \<in> set (greedy_pass g rest ps)"
      using greedy_pass_keeps[of ps g rest] by auto
    moreover have "\<forall>x \<in> set rest. x \<in> set (greedy_pass g rest ps) \<or>
        (\<exists>p \<in> set (greedy_pass g rest ps). \<not> sep g p x)"
      using Cons.prems by (intro Cons.IH) auto
    moreover have "greedy_pass g (item # rest) ps = greedy_pass g rest ps"
      using short False by simp
    ultimately show ?thesis
      using p(2) by (auto simp del: greedy_pass.simps)
  qed
qed

lemma pickTop5_maximal:
  assumes "length xs < 5"
  shows "\<forall>x \<in> set xs. x \<in> set (pickTop5 d xs) \<or> (\<exists>p \<in> set (pickTop5 d xs). \<not> sep 1 p x)"
proof -
  have fp1: "sorted_wrt (sep 1) (first_pass d xs)"
    using minGap_of_ge(3) first_pass_sep by (rule sep_weaken)
  then have "distinct (first_pass d xs)"
    by (simp add: sep_pairwise)
  then have "length (first_pass d xs) < 5"
    using first_pass_subset assms by (rule short_distinct)
  then have ap: "all_picks d xs = greedy_pass 1 (sort_by_score_desc xs) (first_pass d xs)"
    by (simp add: all_picks_def)
  have "set (first_pass d xs) \<union> set (sort_by_score_desc xs) \<subseteq> set xs"
    using first_pass_subset[of d xs] by (simp add: sort_by_score_desc_def)
  with fp1 have "\<forall>x \<in> set (sort_by_score_desc xs). x \<in> set (all_picks d xs) \<or>
      (\<exists>p \<in> set (all_picks d xs). \<not> sep 1 p x)"
    unfolding ap by (intro greedy_pass_maximal[OF _ assms]) simp_all
  then show ?thesis
    by (simp add: pickTop5_all_picks sort_by_score_desc_def)
qed

text \<open>
  The gap of the first loop against the exact \<open>max(1.2, duration * 0.06)\<close>, and the
  exact distance of two picks whose rounded difference reaches it.
\<close>

lemma minGap_of_exact: "max 1.2 (d * 0.06) * (1 - 1 / 2 ^ 52) \<le> minGap_of d"
proof -
  have a: "1.2 * (1 - 1 / 2 ^ 52) \<le> rd 1.2"
    by (simp add: rd_lit)
  have b: "d * 0.06 * (1 - 1 / 2 ^ 52) \<le> minGap_of d"
  proof (cases "d \<le> 20")
    case True
    then have "d * 0.06 * (1 - 1 / 2 ^ 52) \<le> 1.2 * (1 - 1 / 2 ^ 52)"
      by simp
    with a minGap_of_ge(1)[of d] show ?thesis
      by linarith
  next
    case False
    then have "(1::real) / 2 ^ 1022 \<le> 1" "1 \<le> d * rd 0.06"
      by (simp_all add: rd_lit)
    then have "1 / 2 ^ 1022 \<le> d * rd 0.06"
      by linarith
    then have "(1 - 1 / 2 ^ 53) * (d * rd 0.06) \<le> rd (d * rd 0.06)"
      by (rule rd_lower)
    moreover have "d * 0.06 * (1 - 1 / 2 ^ 52) \<le> (1 - 1 / 2 ^ 53) * (d * rd 0.06)"
      using False by (simp add: rd_lit)
    moreover have "rd (d * rd 0.06) \<le> minGap_of d"
      by (simp add: minGap_of_def fmul_def)
    ultimately show ?thesis
      by linarith
  qed
  from a b minGap_of_ge(1)[of d] show ?thesis
    by (simp add: max_def split: if_splits)
qed

lemma minGap_of_distance:
  assumes "minGap_of d \<le> \<bar>fsub a b\<bar>"
  shows "max 1.2 (d * 0.06) * (1 - 1 / 2 ^ 51) \<le> \<bar>a - b\<bar>"
proof -
  define M :: real where "M = max 1.2 (d * 0.06)"
  have M: "0 \<le> M"
    by (simp add: M_def max_def)
  have "minGap_of d * (1 - 1 / 2 ^ 53) \<le> \<bar>a - b\<bar>"
    using assms minGap_of_ge(3)[of d] unfolding fsub_def by (intro rd_ge_gap)
  moreover have "M * (1 - 1 / 2 ^ 52) * (1 - 1 / 2 ^ 53) \<le> minGap_of d * (1 - 1 / 2 ^ 53)"
    using minGap_of_exact[of d] unfolding M_def by (intro mult_right_mono) simp_all
  moreover have "M * (1 - 1 / 2 ^ 51) \<le> M * ((1 - 1 / 2 ^ 52) * (1 - 1 / 2 ^ 53))"
    using M by (intro mult_left_mono) simp_all
  ultimately show ?thesis
    unfolding M_def by (simp add: mult.assoc)
qed

text \<open>
  Claim C1 as stated fails on binary64 timestamps: the loops compare the gap with the
  rounded difference of two timestamps. With the timestamps \<open>1\<close> and \<open>2^-60\<close> the
  relaxed loop accepts both (\<open>1 - 2^-60\<close> rounds to \<open>1\<close>), and they are less than
  1.0 apart. With the timestamps \<open>0\<close> and the Number \<open>1.2\<close> (which lies below
  \<open>6/5\<close>) in a video of 10 seconds both are picks of the first loop, and they are less
  than \<open>max(1.2, 10 * 0.06) = 6/5\<close> apart.
\<close>

theorem pickTop5_gaps_rounded:
  "pickTop5 10 [\<lparr>ts = 1, score = 1\<rparr>, \<lparr>ts = 1 / 2 ^ 60, score = 0\<rparr>] =
     [\<lparr>ts = 1 / 2 ^ 60, score = 0\<rparr>, \<lparr>ts = 1, score = 1\<rparr>] \<and>
   \<bar>1 / 2 ^ 60 - 1\<bar> < (1::real) \<and>
   pickTop5 10 [\<lparr>ts = 0, score = 1\<rparr>, \<lparr>ts = 5404319552844595 / 2 ^ 52, score = 0\<rparr>] =
     [\<lparr>ts = 0, score = 1\<rparr>, \<lparr>ts = 5404319552844595 / 2 ^ 52, score = 0\<rparr>] \<and>
   first_pass 10 [\<lparr>ts = 0, score = 1\<rparr>, \<lparr>ts = 5404319552844595 / 2 ^ 52, score = 0\<rparr>] =
     [\<lparr>ts = 0, score = 1\<rparr>, \<lparr>ts = 5404319552844595 / 2 ^ 52, score = 0\<rparr>] \<and>
   \<bar>0 - 5404319552844595 / 2 ^ 52\<bar> < max 1.2 (10 * 0.06 :: real)"
proof (intro conjI)
  show "pickTop5 10 [\<lparr>ts = 1, score = 1\<rparr>, \<lparr>ts = 1 / 2 ^ 60, score = 0\<rparr>] =
     [\<lparr>ts = 1 / 2 ^ 60, score = 0\<rparr>, \<lparr>ts = 1, score = 1\<rparr>]"
    by (rule eval_tiny)
  show "\<bar>1 / 2 ^ 60 - 1\<bar> < (1::real)"
    by simp
  show "pickTop5 10 [\<lparr>ts = 0, score = 1\<rparr>, \<lparr>ts = 5404319552844595 / 2 ^ 52, score = 0\<rparr>] =
     [\<lparr>ts = 0, score = 1\<rparr>, \<lparr>ts = 5404319552844595 / 2 ^ 52, score = 0\<rparr>]"
    by (rule eval_first)
  show "first_pass 10 [\<lparr>ts = 0, score = 1\<rparr>, \<lparr>ts = 5404319552844595 / 2 ^ 52, score = 0\<rparr>] =
     [\<lparr>ts = 0, score = 1\<rparr>, \<lparr>ts = 5404319552844595 / 2 ^ 52, score = 0\<rparr>]"
    by (rule eval_first)
  show "\<bar>0 - 5404319552844595 / 2 ^ 52\<bar> < max 1.2 (10 * 0.06 :: real)"
    by simp
qed

text \<open>
  Claim C1, amended. For every duration and every list of scored candidates, the
  binary64 difference of the timestamps of any two returned picks, which is what the
  code compares, has a magnitude of at least 1.0, so the picks are at least
  \<open>1 - 2^-54\<close> seconds apart and no timestamp occurs twice; and when every returned
  pick was accepted by the first loop, the binary64 difference of any two is at least
  the gap of that loop, \<open>max(1.2, duration * 0.06)\<close> computed in binary64, so the
  picks are at least \<open>max(1.2, duration * 0.06) * (1 - 2^-51)\<close> seconds apart.
\<close>

theorem pickTop5_gaps:
  "(\<forall>i j. i < j \<and> j < length (pickTop5 d xs) \<longrightarrow>
      1 \<le> \<bar>fsub (ts (pickTop5 d xs ! i)) (ts (pickTop5 d xs ! j))\<bar> \<and>
      1 - 1 / 2 ^ 54 \<le> \<bar>ts (pickTop5 d xs ! i) - ts (pickTop5 d xs ! j)\<bar>) \<and>
   distinct (map ts (pickTop5 d xs)) \<and>
   (set (pickTop5 d xs) \<subseteq> set (first_pass d xs) \<longrightarrow>
      (\<forall>i j. i < j \<and> j < length (pickTop5 d xs) \<longrightarrow>
         minGap_of d \<le> \<bar>fsub (ts (pickTop5 d xs ! i)) (ts (pickTop5 d xs ! j))\<bar> \<and>
         max 1.2 (d * 0.06) * (1 - 1 / 2 ^ 51)
           \<le> \<bar>ts (pickTop5 d xs ! i) - ts (pickTop5 d xs ! j)\<bar>))"
proof (intro conjI impI allI)
  fix i j
  assume ij: "i < j \<and> j < length (pickTop5 d xs)"
  then show one: "1 \<le> \<bar>fsub (ts (pickTop5 d xs ! i)) (ts (pickTop5 d xs ! j))\<bar>"
    using pickTop5_sep[of d xs] by (simp add: sorted_wrt_iff_nth_less sep_def)
  then show "1 - 1 / 2 ^ 54 \<le> \<bar>ts (pickTop5 d xs ! i) - ts (pickTop5 d xs ! j)\<bar>"
    unfolding fsub_def by (rule rd_ge_one)
next
  show "distinct (map ts (pickTop5 d xs))"
    using pickTop5_sep[of d xs] by (intro sep_distinct_ts[of 1]) simp_all
next
  fix i j
  assume sub: "set (pickTop5 d xs) \<subseteq> set (first_pass d xs)"
    and ij: "i < j \<and> j < length (pickTop5 d xs)"
  then show gap: "minGap_of d \<le> \<bar>fsub (ts (pickTop5 d xs ! i)) (ts (pickTop5 d xs ! j))\<bar>"
    using pickTop5_minGap[OF sub] by (simp add: sorted_wrt_iff_nth_less sep_def)
  then show "max 1.2 (d * 0.06) * (1 - 1 / 2 ^ 51)
      \<le> \<bar>ts (pickTop5 d xs ! i) - ts (pickTop5 d xs ! j)\<bar>"
    by (rule minGap_of_distance)
qed

text \<open>Two candidates 20 seconds apart in a video of 100 seconds: both are first-loop picks.\<close>

theorem pickTop5_gaps_witness:
  "set (pickTop5 100 [\<lparr>ts = 10, score = 1\<rparr>, \<lparr>ts = 30, score = 0\<rparr>])
     \<subseteq> set (first_pass 100 [\<lparr>ts = 10, score = 1\<rparr>, \<lparr>ts = 30, score = 0\<rparr>]) \<and>
   (0::nat) < 1 \<and> 1 < length (pickTop5 100 [\<lparr>ts = 10, score = 1\<rparr>, \<lparr>ts = 30, score = 0\<rparr>]) \<and>
   minGap_of 100 \<le>
     \<bar>fsub (ts (pickTop5 100 [\<lparr>ts = 10, score = 1\<rparr>, \<lparr>ts = 30, score = 0\<rparr>] ! 0))
        (ts (pickTop5 100 [\<lparr>ts = 10, score = 1\<rparr>, \<lparr>ts = 30, score = 0\<rparr>] ! 1))\<bar> \<and>
   max 1.2 (100 * 0.06) * (1 - 1 / 2 ^ 51) \<le>
     \<bar>ts (pickTop5 100 [\<lparr>ts = 10, score = 1\<rparr>, \<lparr>ts = 30, score = 0\<rparr>] ! 0)
      - ts (pickTop5 100 [\<lparr>ts = 10, score = 1\<rparr>, \<lparr>ts = 30, score = 0\<rparr>] ! 1)\<bar>"
proof -
  let ?xs = "[\<lparr>ts = 10, score = 1\<rparr>, \<lparr>ts = 30, score = 0\<rparr>]"
  have sub: "set (pickTop5 100 ?xs) \<subseteq> set (first_pass 100 ?xs)"
    by (simp add: eval_rich)
  have len: "(0::nat) < 1 \<and> 1 < length (pickTop5 100 ?xs)"
    by (simp add: eval_rich)
  from pickTop5_gaps[of 100 ?xs] sub len
  have "minGap_of 100 \<le> \<bar>fsub (ts (pickTop5 100 ?xs ! 0)) (ts (pickTop5 100 ?xs ! 1))\<bar> \<and>
    max 1.2 (100 * 0.06) * (1 - 1 / 2 ^ 51) \<le> \<bar>ts (pickTop5 100 ?xs ! 0) - ts (pickTop5 100 ?xs ! 1)\<bar>"
    by blast
  with sub len show ?thesis by blast
qed

text \<open>
  Claim C10. For every non-empty list of scored candidates the result is not empty; the
  first element of the score-descending order, whose score is maximal in the list, is
  always among the picks; and every pick is an element of the list (timestamp and score
  unchanged).
\<close>

theorem pickTop5_best:
  "xs \<noteq> [] \<Longrightarrow>
     pickTop5 d xs \<noteq> [] \<and>
     hd (sort_by_score_desc xs) \<in> set (pickTop5 d xs) \<and>
     (\<forall>x \<in> set xs. score x \<le> score (hd (sort_by_score_desc xs))) \<and>
     set (pickTop5 d xs) \<subseteq> set xs"
proof -
  assume "xs \<noteq> []"
  then obtain h rest where hr: "sort_by_score_desc xs = h # rest"
    and best: "\<forall>x \<in> set xs. score x \<le> score h"
    by (rule sort_by_score_desc_head)
  have h: "h \<in> set (pickTop5 d xs)"
    using first_pass_keeps_head[OF hr, of d] first_pass_in_all_picks[of d xs]
    by (auto simp: pickTop5_all_picks)
  then have "pickTop5 d xs \<noteq> []"
    by auto
  moreover have "set (pickTop5 d xs) \<subseteq> set xs"
    using all_picks_subset[of d xs] by (simp add: pickTop5_all_picks)
  ultimately show ?thesis
    using h best by (simp add: hr)
qed

text \<open>A list of two candidates, the better one first.\<close>

theorem pickTop5_best_witness:
  "[\<lparr>ts = 10, score = 1\<rparr>, \<lparr>ts = 30, score = 0\<rparr>] \<noteq> [] \<and>
   pickTop5 100 [\<lparr>ts = 10, score = 1\<rparr>, \<lparr>ts = 30, score = 0\<rparr>] \<noteq> [] \<and>
   \<lparr>ts = 10, score = 1\<rparr> \<in> set (pickTop5 100 [\<lparr>ts = 10, score = 1\<rparr>, \<lparr>ts = 30, score = 0\<rparr>]) \<and>
   set (pickTop5 100 [\<lparr>ts = 10, score = 1\<rparr>, \<lparr>ts = 30, score = 0\<rparr>])
     \<subseteq> set [\<lparr>ts = 10, score = 1\<rparr>, \<lparr>ts = 30, score = 0\<rparr>]"
proof -
  let ?xs = "[\<lparr>ts = 10, score = 1\<rparr>, \<lparr>ts = 30, score = 0\<rparr>]"
  have "hd (sort_by_score_desc ?xs) = \<lparr>ts = 10, score = 1\<rparr>"
    by (simp add: sort_by_score_desc_def)
  with pickTop5_best[of ?xs 100] show ?thesis
    by simp
qed

text \<open>
  Claim C9. For every duration and every pool of fewer than 5 scored entries the result
  is in chronological order and consists of entries of the pool, and the gap constraint
  of the loops alone decides which: any two returned picks pass the gap test for 1.0
  second (their binary64 difference is at least 1.0), and every entry of the pool is
  returned unless it fails that test against a returned pick (the limit of five picks
  never drops an entry). So all entries are returned exactly when they pass the test
  pairwise.
\<close>

theorem pickTop5_small_pool:
  "length xs < 5 \<Longrightarrow>
     sorted (map ts (pickTop5 d xs)) \<and>
     set (pickTop5 d xs) \<subseteq> set xs \<and>
     (\<forall>i j. i < j \<and> j < length (pickTop5 d xs) \<longrightarrow>
        1 \<le> \<bar>fsub (ts (pickTop5 d xs ! i)) (ts (pickTop5 d xs ! j))\<bar>) \<and>
     (\<forall>x \<in> set xs. x \<in> set (pickTop5 d xs) \<or>
        (\<exists>p \<in> set (pickTop5 d xs). \<not> 1 \<le> \<bar>fsub (ts p) (ts x)\<bar>)) \<and>
     (mset (pickTop5 d xs) = mset xs \<longleftrightarrow>
        (\<forall>i j. i < j \<and> j < length xs \<longrightarrow> 1 \<le> \<bar>fsub (ts (xs ! i)) (ts (xs ! j))\<bar>))"
proof (intro conjI)
  assume len: "length xs < 5"
  show "sorted (map ts (pickTop5 d xs))"
    unfolding pickTop5_all_picks by (rule sorted_sort_key)
  show "set (pickTop5 d xs) \<subseteq> set xs"
    using all_picks_subset[of d xs] by (simp add: pickTop5_all_picks)
  show "\<forall>i j. i < j \<and> j < length (pickTop5 d xs) \<longrightarrow>
        1 \<le> \<bar>fsub (ts (pickTop5 d xs ! i)) (ts (pickTop5 d xs ! j))\<bar>"
    using pickTop5_sep[of d xs] by (simp only: sep_nth)
  show "\<forall>x \<in> set xs. x \<in> set (pickTop5 d xs) \<or>
        (\<exists>p \<in> set (pickTop5 d xs). \<not> 1 \<le> \<bar>fsub (ts p) (ts x)\<bar>)"
    using pickTop5_maximal[OF len, of d] by (simp only: sep_def)
  have "mset (pickTop5 d xs) = mset xs \<longleftrightarrow> sorted_wrt (sep 1) xs"
    using pickTop5_all_of_small_pool[OF len, of d] sep_perm[OF _ pickTop5_sep[of d xs], of xs]
    by auto
  then show "mset (pickTop5 d xs) = mset xs \<longleftrightarrow>
        (\<forall>i j. i < j \<and> j < length xs \<longrightarrow> 1 \<le> \<bar>fsub (ts (xs ! i)) (ts (xs ! j))\<bar>)"
    by (simp only: sep_nth)
qed

text \<open>
  A pool of two candidates half a second apart in a video of 10 seconds: the better one
  is returned, the other one fails the gap test against it.
\<close>

theorem pickTop5_small_pool_witness:
  "length [\<lparr>ts = 1, score = 1\<rparr>, \<lparr>ts = 3 / 2, score = 0\<rparr>] < 5 \<and>
   pickTop5 10 [\<lparr>ts = 1, score = 1\<rparr>, \<lparr>ts = 3 / 2, score = 0\<rparr>] = [\<lparr>ts = 1, score = 1\<rparr>] \<and>
   \<lparr>ts = 3 / 2, score = 0\<rparr> \<in> set [\<lparr>ts = 1, score = 1\<rparr>, \<lparr>ts = 3 / 2, score = 0\<rparr>] \<and>
   \<not> 1 \<le> \<bar>fsub (ts \<lparr>ts = 1, score = 1\<rparr>) (ts \<lparr>ts = 3 / 2, score = 0\<rparr>)\<bar> \<and>
   sorted (map ts (pickTop5 10 [\<lparr>ts = 1, score = 1\<rparr>, \<lparr>ts = 3 / 2, score = 0\<rparr>])) \<and>
   mset (pickTop5 10 [\<lparr>ts = 1, score = 1\<rparr>, \<lparr>ts = 3 / 2, score = 0\<rparr>])
     \<noteq> mset [\<lparr>ts = 1, score = 1\<rparr>, \<lparr>ts = 3 / 2, score = 0\<rparr>]"
proof -
  let ?xs = "[\<lparr>ts = 1, score = 1\<rparr>, \<lparr>ts = 3 / 2, score = 0\<rparr>]"
  have len: "length ?xs < 5" by simp
  have mem: "\<lparr>ts = 3 / 2, score = 0\<rparr> \<in> set ?xs" by simp
  have out: "\<lparr>ts = 3 / 2, score = 0\<rparr> \<notin> set (pickTop5 10 ?xs)"
    by (simp add: eval_close)
  from pickTop5_small_pool[OF len, of 10] mem out
  have "\<exists>p \<in> set (pickTop5 10 ?xs).
      \<not> 1 \<le> \<bar>fsub (ts p) (ts \<lparr>ts = 3 / 2, score = 0\<rparr>)\<bar>"
    by blast
  then have "\<not> 1 \<le> \<bar>fsub (ts \<lparr>ts = 1, score = 1\<rparr>) (ts \<lparr>ts = 3 / 2, score = 0\<rparr>)\<bar>"
    by (simp add: eval_close)
  moreover from pickTop5_small_pool[OF len, of 10]
  have "sorted (map ts (pickTop5 10 ?xs))"
    by blast
  ultimately show ?thesis
    using len mem by (simp add: eval_close)
qed


subsection \<open>The prober\<close>

lemma trim_Nil: "trim [] = []"
  by (simp add: trim_def)

text \<open>\<open>Number\<close> trims its argument itself, so trimming it before changes nothing.\<close>

lemma trim_trim: "trim (trim s) = trim s"
proof -
  define u where "u = dropWhile is_ws s"
  define w where "w = rev (dropWhile is_ws (rev u))"
  have w: "trim s = w"
    by (simp add: trim_def u_def w_def)
  have "u = rev (takeWhile is_ws (rev u) @ dropWhile is_ws (rev u))"
    by (simp only: takeWhile_dropWhile_id rev_rev_ident)
  then have split: "u = w @ rev (takeWhile is_ws (rev u))"
    by (simp only: rev_append w_def)
  have front: "dropWhile is_ws w = w"
  proof (cases w)
    case Nil
    then show ?thesis by simp
  next
    case (Cons c cs)
    with split have "u = c # (cs @ rev (takeWhile is_ws (rev u)))"
      by simp
    then have "u \<noteq> []" "hd u = c"
      by (metis list.distinct(1), metis list.sel(1))
    moreover have "\<not> is_ws (hd u)" if "u \<noteq> []"
      using that unfolding u_def by (rule hd_dropWhile)
    ultimately show ?thesis
      using Cons by simp
  qed
  have "trim w = rev (dropWhile is_ws (rev w))"
    by (simp add: trim_def front)
  also have "\<dots> = w"
    by (simp add: w_def)
  finally show ?thesis
    by (simp add: w)
qed

lemma js_Number_trim: "js_Number (trim s) = js_Number s"
  by (simp add: js_Number_def trim_trim)

lemma js_Number_empty: "js_Number '''' = Num 0"
  by (simp add: js_Number_def trim_Nil)

lemma js_Number_NA: "js_Number ''N/A\<newline>'' = NaN"
proof -
  have "trim ''N/A\<newline>'' = ''N/A''" "non_decimal ''N/A'' = None"
    "unsigned_decimal ''N/A'' = None"
    by code_simp+
  then show ?thesis by (simp add: js_Number_def str_decimal_def)
qed

lemma js_Number_ten: "js_Number ''10.000000\<newline>'' = Num 10"
proof -
  have "js_Number ''10.000000\<newline>'' = Num (rd 10)"
    by (rule js_Number_decimal[where t = "''10.000000''"]; code_simp)
  then show ?thesis
    by (simp add: rd_numeral)
qed

text \<open>
  Claim C8. The prober passes on the failure of the \<open>ffprobe\<close> process, and on a
  report it raises \<open>Bad duration\<close> exactly when \<open>Number\<close> of the report text is not
  finite (\<open>NaN\<close> for a text that is not a numeric literal, or an infinity); otherwise
  it returns that Number. (The literals of \<open>Number\<close> include the empty text, which
  reads as 0; \<open>ffprobe\<close> prints a decimal number or \<open>N/A\<close>.)
\<close>

theorem ffprobeDurationSeconds_parse:
  "ffprobeDurationSeconds (Inl e) = Inl e \<and>
   (ffprobeDurationSeconds (Inr out) = Inl BadDuration
      \<longleftrightarrow> \<not> isFinite (js_Number (stdout out))) \<and>
   (\<forall>n. ffprobeDurationSeconds (Inr out) = Inr n \<longleftrightarrow> js_Number (stdout out) = Num n) \<and>
   (\<forall>e'. ffprobeDurationSeconds (Inr out) = Inl e' \<longrightarrow> e' = BadDuration)"
  by (cases "js_Number (stdout out)")
    (simp_all add: ffprobeDurationSeconds_def js_Number_trim)

text \<open>The reports \<open>N/A\<close> and \<open>10.000000\<close>, each followed by a line break.\<close>

theorem ffprobeDurationSeconds_parse_witness:
  "\<not> isFinite (js_Number (stdout \<lparr>stdout = ''N/A\<newline>'', stderr = ''''\<rparr>)) \<and>
   ffprobeDurationSeconds (Inr \<lparr>stdout = ''N/A\<newline>'', stderr = ''''\<rparr>) = Inl BadDuration \<and>
   js_Number (stdout \<lparr>stdout = ''10.000000\<newline>'', stderr = ''''\<rparr>) = Num 10 \<and>
   ffprobeDurationSeconds (Inr \<lparr>stdout = ''10.000000\<newline>'', stderr = ''''\<rparr>) = Inr 10"
  using ffprobeDurationSeconds_parse[of undefined "\<lparr>stdout = ''N/A\<newline>'', stderr = ''''\<rparr>"]
    ffprobeDurationSeconds_parse[of undefined "\<lparr>stdout = ''10.000000\<newline>'', stderr = ''''\<rparr>"]
  by (simp add: js_Number_NA js_Number_ten)


subsection \<open>The scoring loop\<close>

lemma probe_ten: "ffprobeDurationSeconds (Inr \<lparr>stdout = ''10.000000\<newline>'', stderr = ''''\<rparr>) = Inr 10"
  by (simp add: ffprobeDurationSeconds_def js_Number_trim js_Number_ten)

lemma scoreFrameJpg_total: "\<exists>s. scoreFrameJpg b e = Inr s"
  using scoreFrameJpg_range[of b e] by blast

lemma score_loop_fail:
  "k < length cs \<Longrightarrow> run_extract T v (i + k) (cs ! k) = Inl e \<Longrightarrow>
   \<forall>j<k. \<not> isl (run_extract T v (i + j) (cs ! j)) \<Longrightarrow>
   score_loop T v cs i acc = Inl e"
proof (induction cs arbitrary: i k acc)
  case Nil
  then show ?case by simp
next
  case (Cons c cs)
  show ?case
  proof (cases k)
    case 0
    with Cons.prems show ?thesis
      by (simp add: extractJpgAt_def)
  next
    case (Suc k')
    from Cons.prems(3) Suc have "\<not> isl (run_extract T v i c)"
      by (auto dest: spec[of _ 0])
    then obtain out where out: "run_extract T v i c = Inr out"
      by (cases "run_extract T v i c") auto
    obtain s where s: "scoreFrameJpg (run_base_stats T i c) (run_edge_stats T i c) = Inr s"
      using scoreFrameJpg_total by blast
    have "score_loop T v cs (Suc i) (acc @ [\<lparr>ts = c, score = s\<rparr>]) = Inl e"
    proof (rule Cons.IH[of k'])
      show "k' < length cs" using Cons.prems(1) Suc by simp
      show "run_extract T v (Suc i + k') (cs ! k') = Inl e"
        using Cons.prems(2) Suc by simp
      show "\<forall>j<k'. \<not> isl (run_extract T v (Suc i + j) (cs ! j))"
      proof (intro allI impI)
        fix j assume "j < k'"
        then have "Suc j < k" using Suc by simp
        with Cons.prems(3) have "\<not> isl (run_extract T v (i + Suc j) ((c # cs) ! Suc j))"
          by blast
        then show "\<not> isl (run_extract T v (Suc i + j) (cs ! j))" by simp
      qed
    qed
    then show ?thesis
      by (simp add: extractJpgAt_def out s)
  qed
qed

lemma score_loop_ok:
  "\<forall>j<length cs. \<not> isl (run_extract T v (i + j) (cs ! j)) \<Longrightarrow>
   \<exists>xs. score_loop T v cs i acc = Inr xs \<and> map ts xs = map ts acc @ cs"
proof (induction cs arbitrary: i acc)
  case Nil
  then show ?case by simp
next
  case (Cons c cs)
  from Cons.prems have "\<not> isl (run_extract T v i c)"
    by (auto dest: spec[of _ 0])
  then obtain out where out: "run_extract T v i c = Inr out"
    by (cases "run_extract T v i c") auto
  obtain s where s: "scoreFrameJpg (run_base_stats T i c) (run_edge_stats T i c) = Inr s"
    using scoreFrameJpg_total by blast
  have "\<forall>j<length cs. \<not> isl (run_extract T v (Suc i + j) (cs ! j))"
  proof (intro allI impI)
    fix j assume "j < length cs"
    then have "Suc j < length (c # cs)" by simp
    with Cons.prems have "\<not> isl (run_extract T v (i + Suc j) ((c # cs) ! Suc j))"
      by blast
    then show "\<not> isl (run_extract T v (Suc i + j) (cs ! j))" by simp
  qed
  from Cons.IH[OF this, of "acc @ [\<lparr>ts = c, score = s\<rparr>]"]
  show ?case
    by (simp add: extractJpgAt_def out s)
qed

text \<open>
  Claim C3 as stated fails: the extraction is awaited inside \<open>try\<close>/\<open>finally\<close>
  with no \<open>catch\<close>. When only the extraction of the second candidate fails, the
  whole run fails with that error.
\<close>

theorem extraction_failure_propagates:
  "run_extract cx_tools ''video.mp4'' 1 (makeCandidateTimes 10 180 ! 1) = Inl (ExecError ''ffmpeg failed'') \<and>
   run_extract cx_tools ''video.mp4'' 0 (makeCandidateTimes 10 180 ! 0) = Inr \<lparr>stdout = '''', stderr = ''''\<rparr> \<and>
   autoPickTop5Times cx_tools ''video.mp4'' = Inl (ExecError ''ffmpeg failed'')"
proof -
  have "score_loop cx_tools ''video.mp4'' (makeCandidateTimes 10 180) 0 [] =
      Inl (ExecError ''ffmpeg failed'')"
    by (rule score_loop_fail[of 1]) (simp_all add: len10 cx_tools_def)
  moreover have "ffprobeDurationSeconds (run_ffprobe cx_tools ''video.mp4'') = Inr 10"
    by (simp add: cx_tools_def probe_ten)
  ultimately show ?thesis
    by (simp add: autoPickTop5Times_def cx_tools_def)
qed

text \<open>
  Claim C3, amended. After a successful probe, when the extraction fails for a candidate
  and for none before it, the scoring loop stops there and the run fails with that
  error; the run returns picks exactly when no extraction of a candidate fails.
\<close>

theorem autoPickTop5Times_extraction_failure:
  "ffprobeDurationSeconds (run_ffprobe T v) = Inr d \<Longrightarrow>
   (\<forall>k e. k < length (makeCandidateTimes d 180) \<and>
          run_extract T v k (makeCandidateTimes d 180 ! k) = Inl e \<and>
          (\<forall>j<k. \<not> isl (run_extract T v j (makeCandidateTimes d 180 ! j)))
          \<longrightarrow> autoPickTop5Times T v = Inl e) \<and>
   ((\<exists>r. autoPickTop5Times T v = Inr r) \<longleftrightarrow>
      (\<forall>j < length (makeCandidateTimes d 180).
          \<not> isl (run_extract T v j (makeCandidateTimes d 180 ! j))))"
proof -
  assume probe: "ffprobeDurationSeconds (run_ffprobe T v) = Inr d"
  let ?cs = "makeCandidateTimes d 180"
  have run: "autoPickTop5Times T v =
      (case score_loop T v ?cs 0 [] of Inl e \<Rightarrow> Inl e
       | Inr xs \<Rightarrow> Inr \<lparr>duration = d, picks = pickTop5 d xs\<rparr>)"
    by (simp add: autoPickTop5Times_def probe)
  have fail: "autoPickTop5Times T v = Inl e"
    if "k < length ?cs" "run_extract T v k (?cs ! k) = Inl e"
      "\<forall>j<k. \<not> isl (run_extract T v j (?cs ! j))" for k e
    using score_loop_fail[of k ?cs T v 0 e "[]"] that by (simp add: run)
  have ok: "\<exists>r. autoPickTop5Times T v = Inr r"
    if "\<forall>j < length ?cs. \<not> isl (run_extract T v j (?cs ! j))"
    using score_loop_ok[of ?cs T v 0 "[]"] that by (auto simp: run)
  have none: "\<forall>j < length ?cs. \<not> isl (run_extract T v j (?cs ! j))"
    if r: "autoPickTop5Times T v = Inr r" for r
  proof (rule ccontr)
    assume "\<not> (\<forall>j < length ?cs. \<not> isl (run_extract T v j (?cs ! j)))"
    then have ex: "\<exists>j. j < length ?cs \<and> isl (run_extract T v j (?cs ! j))"
      by blast
    define k where "k = (LEAST j. j < length ?cs \<and> isl (run_extract T v j (?cs ! j)))"
    have k: "k < length ?cs" "isl (run_extract T v k (?cs ! k))"
      using LeastI_ex[OF ex] unfolding k_def by blast+
    have least: "\<forall>j<k. \<not> isl (run_extract T v j (?cs ! j))"
      using not_less_Least[of _ "\<lambda>j. j < length ?cs \<and> isl (run_extract T v j (?cs ! j))"] k(1)
      unfolding k_def by (metis (lifting) less_trans)
    from k(2) obtain e where "run_extract T v k (?cs ! k) = Inl e"
      by (cases "run_extract T v k (?cs ! k)") auto
    from fail[OF k(1) this least] r show False by simp
  qed
  from fail ok none show ?thesis by blast
qed

text \<open>The two example runs.\<close>

theorem autoPickTop5Times_extraction_failure_witness:
  "ffprobeDurationSeconds (run_ffprobe cx_tools ''clip.mp4'') = Inr 10 \<and>
   1 < length (makeCandidateTimes 10 180) \<and>
   run_extract cx_tools ''clip.mp4'' 1 (makeCandidateTimes 10 180 ! 1) = Inl (ExecError ''ffmpeg failed'') \<and>
   \<not> isl (run_extract cx_tools ''clip.mp4'' 0 (makeCandidateTimes 10 180 ! 0)) \<and>
   autoPickTop5Times cx_tools ''clip.mp4'' = Inl (ExecError ''ffmpeg failed'') \<and>
   ffprobeDurationSeconds (run_ffprobe ok_tools ''clip.mp4'') = Inr 10 \<and>
   \<not> isl (autoPickTop5Times ok_tools ''clip.mp4'')"
proof -
  have p1: "ffprobeDurationSeconds (run_ffprobe cx_tools ''clip.mp4'') = Inr 10"
    by (simp add: cx_tools_def probe_ten)
  have p2: "ffprobeDurationSeconds (run_ffprobe ok_tools ''clip.mp4'') = Inr 10"
    by (simp add: ok_tools_def probe_ten)
  have f: "1 < length (makeCandidateTimes 10 180) \<and>
      run_extract cx_tools ''clip.mp4'' 1 (makeCandidateTimes 10 180 ! 1) = Inl (ExecError ''ffmpeg failed'') \<and>
      (\<forall>j<1. \<not> isl (run_extract cx_tools ''clip.mp4'' j (makeCandidateTimes 10 180 ! j)))"
    by (simp add: len10 cx_tools_def)
  have a: "autoPickTop5Times cx_tools ''clip.mp4'' = Inl (ExecError ''ffmpeg failed'')"
    using autoPickTop5Times_extraction_failure[OF p1] f by blast
  have "\<forall>j < length (makeCandidateTimes 10 180).
      \<not> isl (run_extract ok_tools ''clip.mp4'' j (makeCandidateTimes 10 180 ! j))"
    by (simp add: ok_tools_def)
  with autoPickTop5Times_extraction_failure[OF p2]
  obtain r where "autoPickTop5Times ok_tools ''clip.mp4'' = Inr r"
    by blast
  then have b: "\<not> isl (autoPickTop5Times ok_tools ''clip.mp4'')"
    by simp
  from p1 p2 f a b show ?thesis
    by simp
qed

end
